theory Spec2Isabelle
  imports Complex_Main "HOL-Library.Sublist"
begin

section \<open>Lottus: verse store, utterances, page load and playback\<close>

text \<open>
  The repository holds three revisions of one screen: \<^verbatim>\<open>src/index.tsx\<close>,
  \<^verbatim>\<open>unnamed/part_001\<close> and \<^verbatim>\<open>unnamed/part_002\<close>. The verse-store reducer and the
  page-load effect are the same text in all three; the utterance builder and the playback
  functions differ, and each variant is embedded under its own name.
\<close>

subsection \<open>Data\<close>

text \<open>
  A JavaScript \<^verbatim>\<open>number\<close> is read as a real: the code only stores, compares and passes on
  the pause values and the literals 300, 1000 and 0.6; it does no arithmetic on them.
  A verse is a JavaScript object \<^verbatim>\<open>{text, pause}\<close>. The reducer builds verses from a
  \<^verbatim>\<open>Partial<Verse>\<close> spread over \<^verbatim>\<open>{} as Verse\<close>, so at run time either property can be
  absent: \<open>None\<close> is the absent (undefined) property.
\<close>

type_synonym number = real

record verse =
  verse_text :: "string option"
  verse_pause :: "number option"

text \<open>
  The reducer's action, as its TypeScript union declares it:
  \<^verbatim>\<open>{index, verse: Partial<Verse> | null}\<close> is \<open>Edit index verse\<close> (\<open>None\<close> for \<^verbatim>\<open>null\<close>) and
  \<^verbatim>\<open>{verses}\<close> is \<open>Replace verses\<close>.
\<close>

datatype action = Edit int "verse option" | Replace "verse list"

subsection \<open>Array.prototype.slice and Array.prototype.splice\<close>

text \<open>
  ECMAScript clamps a relative index \<open>i\<close> against the length: a negative one counts from
  the end and stops at 0, any other stops at the length.
\<close>

definition relative_index :: "int \<Rightarrow> nat \<Rightarrow> nat" where
  "relative_index i len = (if i < 0 then nat (max (int len + i) 0) else min (nat i) len)"

text \<open>\<^verbatim>\<open>xs.slice(start, end)\<close> and \<^verbatim>\<open>xs.slice(start)\<close>: a copy, the array is not changed.\<close>

definition slice2 :: "'a list \<Rightarrow> int \<Rightarrow> int \<Rightarrow> 'a list" where
  "slice2 xs start fin =
     (let k = relative_index start (length xs); f = relative_index fin (length xs)
      in take (f - k) (drop k xs))"

definition slice1 :: "'a list \<Rightarrow> int \<Rightarrow> 'a list" where
  "slice1 xs start = drop (relative_index start (length xs)) xs"

text \<open>
  \<^verbatim>\<open>xs.splice(start, deleteCount)\<close> and \<^verbatim>\<open>xs.splice(start)\<close> remove elements from the array
  itself and return them: the result is the pair (removed elements, array afterwards).
\<close>

definition splice2 :: "'a list \<Rightarrow> int \<Rightarrow> int \<Rightarrow> 'a list \<times> 'a list" where
  "splice2 xs start deleteCount =
     (let s = relative_index start (length xs);
          d = nat (min (max deleteCount 0) (int (length xs - s)))
      in (take d (drop s xs), take s xs @ drop (s + d) xs))"

definition splice1 :: "'a list \<Rightarrow> int \<Rightarrow> 'a list \<times> 'a list" where
  "splice1 xs start =
     (let s = relative_index start (length xs) in (drop s xs, take s xs))"

text \<open>\<^verbatim>\<open>xs[index]\<close>: \<open>None\<close> is \<^verbatim>\<open>undefined\<close>, the value outside \<open>0 \<le> index < length\<close>.\<close>

definition element_at :: "'a list \<Rightarrow> int \<Rightarrow> 'a option" where
  "element_at xs i = (if 0 \<le> i \<and> i < int (length xs) then Some (xs ! nat i) else None)"

subsection \<open>The verse-store reducer\<close>

text \<open>\<^verbatim>\<open>{ ...a, ...b }\<close>: a property of \<open>b\<close> wins where \<open>b\<close> has it.\<close>

definition spread :: "verse \<Rightarrow> verse \<Rightarrow> verse" where
  "spread a b =
     \<lparr>verse_text = (case verse_text b of Some t \<Rightarrow> Some t | None \<Rightarrow> verse_text a),
      verse_pause = (case verse_pause b of Some p \<Rightarrow> Some p | None \<Rightarrow> verse_pause a)\<rparr>"

definition empty_object :: verse where
  "empty_object = \<lparr>verse_text = None, verse_pause = None\<rparr>"

text \<open>
  The reducer passed to \<^verbatim>\<open>useReducer\<close> (lines 31--52 of all three revisions). An array is
  truthy, so \<^verbatim>\<open>if (nextVerses)\<close> is the \<open>Replace\<close> case; \<^verbatim>\<open>if (!verse)\<close> is \<open>Edit index None\<close>.
  The delete branch calls \<^verbatim>\<open>splice\<close> twice on the same array, left to right: the second call
  sees what the first one left.
\<close>

fun updateVerses :: "verse list \<Rightarrow> action \<Rightarrow> verse list" where
  "updateVerses verses (Replace nextVerses) = nextVerses"
| "updateVerses verses (Edit index None) =
     (let (front, verses1) = splice2 verses 0 index;
          (back, verses2) = splice1 verses1 (index + 1)
      in front @ back)"
| "updateVerses verses (Edit index (Some v)) =
     slice2 verses 0 index
       @ [spread (case element_at verses index of Some old \<Rightarrow> old | None \<Rightarrow> empty_object) v]
       @ slice1 verses (index + 1)"

text \<open>The list with the element at \<open>k\<close> removed and the order of the rest kept.\<close>

definition without :: "nat \<Rightarrow> 'a list \<Rightarrow> 'a list" where
  "without k xs = take k xs @ drop (Suc k) xs"

text \<open>The verse the Add Verse button dispatches, at \<^verbatim>\<open>index: verses.length\<close>.\<close>

definition new_verse :: verse where
  "new_verse = \<lparr>verse_text = Some '''', verse_pause = Some 1000\<rparr>"

definition verseA :: verse where
  "verseA = \<lparr>verse_text = Some ''A'', verse_pause = Some 500\<rparr>"

definition verseB :: verse where
  "verseB = \<lparr>verse_text = Some ''B'', verse_pause = Some 300\<rparr>"

definition verseC :: verse where
  "verseC = \<lparr>verse_text = Some ''C'', verse_pause = Some 1000\<rparr>"

text \<open>A verse of two segments.\<close>

definition verseAB :: verse where
  "verseAB = \<lparr>verse_text = Some ''a,b'', verse_pause = Some 1000\<rparr>"

subsection \<open>Utterances\<close>

datatype js_error = TypeError | Reason string

text \<open>
  The properties the code sets on a fresh \<^verbatim>\<open>SpeechSynthesisUtterance\<close>, and the
  \<^verbatim>\<open>UtteranceInfo\<close> pairing it with the pause that follows it.
\<close>

record utterance =
  utt_text :: string
  rate :: number
  pitch :: number

record utteranceInfo =
  utterance :: utterance
  pause :: "number option"

text \<open>
  \<^verbatim>\<open>makeUtterance\<close> of \<^verbatim>\<open>src/index.tsx\<close> (lines 99--110). \<^verbatim>\<open>text || ' '\<close> takes the
  space for the empty string and for an absent text alike.
\<close>

definition makeUtterance :: "verse \<Rightarrow> utteranceInfo" where
  "makeUtterance v =
     \<lparr>utterance =
        \<lparr>utt_text = (case verse_text v of None \<Rightarrow> '' '' | Some t \<Rightarrow> if t = [] then '' '' else t),
         rate = 0.6, pitch = 0.6\<rparr>,
      pause = verse_pause v\<rparr>"

text \<open>
  \<^verbatim>\<open>text.split(',')\<close> with a one-character separator: the parts between the separators,
  empty parts included, so the empty string gives one empty part. A JavaScript string is
  a sequence of code units, read here as a list of characters.
\<close>

fun js_split :: "char \<Rightarrow> string \<Rightarrow> string list" where
  "js_split sep [] = [[]]"
| "js_split sep (c # cs) =
     (if c = sep then [] # js_split sep cs
      else (c # hd (js_split sep cs)) # tl (js_split sep cs))"

text \<open>\<^verbatim>\<open>parts.join(sep)\<close>, to say what the parts of a split are.\<close>

fun js_join :: "char \<Rightarrow> string list \<Rightarrow> string" where
  "js_join sep [] = []"
| "js_join sep [p] = p"
| "js_join sep (p # q # ps) = p @ sep # js_join sep (q # ps)"

text \<open>
  \<^verbatim>\<open>makeUtterances\<close> of \<^verbatim>\<open>part_001\<close> and \<^verbatim>\<open>part_002\<close> (lines 108--122 of both). The two
  differ in one expression: \<^verbatim>\<open>part_001\<close> speaks a non-empty part as \<^verbatim>\<open>`...${part}`\<close>,
  \<^verbatim>\<open>part_002\<close> as \<^verbatim>\<open>part\<close>. \<^verbatim>\<open>text.split\<close> on an absent text throws a TypeError.
\<close>

datatype revision = Part1 | Part2

definition segment_pause :: number where
  "segment_pause = 300"

definition spoken :: "revision \<Rightarrow> string \<Rightarrow> string" where
  "spoken rv part =
     (if part \<noteq> [] then (case rv of Part1 \<Rightarrow> ''...'' @ part | Part2 \<Rightarrow> part) else '' '')"

definition makeUtterances :: "revision \<Rightarrow> verse \<Rightarrow> js_error + utteranceInfo list" where
  "makeUtterances rv v =
     (case verse_text v of
        None \<Rightarrow> Inl TypeError
      | Some t \<Rightarrow>
          (let parts = js_split CHR '','' t
           in Inr (map (\<lambda>(part, index).
                 \<lparr>utterance = \<lparr>utt_text = spoken rv part, rate = 0.6, pitch = 0.6\<rparr>,
                  pause = (if index = length parts - 1 then verse_pause v
                           else Some segment_pause)\<rparr>)
               (zip parts [0 ..< length parts]))))"

subsection \<open>The page and its effects\<close>

text \<open>
  What the code does to the world, in the order it does it, together with the two kinds of
  event the browser reports back: an utterance that ended and a timeout that fired.
\<close>

datatype effect =
    SetTitle string
  | SetCurrentVerse int
  | SetIsPlaying bool
  | ConsoleLog string
  | SpeechSpeak utterance
  | SpeechCancel
  | SetTimeout nat "number option"
  | ClearTimeout int
  | UtteranceEnded utterance
  | TimeoutFired nat

text \<open>
  The component's state (\<^verbatim>\<open>useState\<close>, \<^verbatim>\<open>useReducer\<close> and \<^verbatim>\<open>useRef\<close> values) and the two
  browser queues the code drives: the timeouts that are pending and the utterances handed
  to \<^verbatim>\<open>speechSynthesis\<close>, the first of which is being spoken. Each pending timeout and
  each queued utterance carries what its callback goes on to do, a value of type \<open>'k\<close>.
  \<^verbatim>\<open>setTimeout\<close> returns a fresh id, counted by \<open>timerCount\<close>; no id is \<open>-1\<close>.
\<close>

record 'k app =
  title :: string
  verses :: "verse list"
  loaded :: bool
  currentVerse :: int
  isPlaying :: bool
  currentTimeout :: int
  timers :: "(nat \<times> 'k) list"
  timerCount :: nat
  speechQueue :: "(utteranceInfo \<times> 'k) list"
  trace :: "effect list"

definition initial :: "'k app" where
  "initial =
     \<lparr>title = [], verses = [], loaded = False, currentVerse = - 1, isPlaying = False,
      currentTimeout = - 1, timers = [], timerCount = 0, speechQueue = [], trace = []\<rparr>"

definition emit :: "effect list \<Rightarrow> 'k app \<Rightarrow> 'k app" where
  "emit es s = s\<lparr>trace := trace s @ es\<rparr>"

subsection \<open>Page load\<close>

text \<open>
  A promise that has settled, and \<^verbatim>\<open>then\<close>, \<^verbatim>\<open>catch\<close> and \<^verbatim>\<open>finally\<close> on it, threading
  the state their callbacks change.
\<close>

datatype 'a settled = Fulfilled 'a | Rejected js_error

definition p_then ::
  "('a \<Rightarrow> 's \<Rightarrow> 's \<times> 'b settled) \<Rightarrow> 's \<times> 'a settled \<Rightarrow> 's \<times> 'b settled" where
  "p_then f p = (case p of (s, Fulfilled a) \<Rightarrow> f a s | (s, Rejected e) \<Rightarrow> (s, Rejected e))"

definition p_catch ::
  "(js_error \<Rightarrow> 's \<Rightarrow> 's \<times> 'a settled) \<Rightarrow> 's \<times> 'a settled \<Rightarrow> 's \<times> 'a settled" where
  "p_catch h p = (case p of (s, Fulfilled a) \<Rightarrow> (s, Fulfilled a) | (s, Rejected e) \<Rightarrow> h e s)"

definition p_finally :: "('s \<Rightarrow> 's) \<Rightarrow> 's \<times> 'a settled \<Rightarrow> 's \<times> 'a settled" where
  "p_finally g p = (case p of (s, r) \<Rightarrow> (g s, r))"

text \<open>
  What \<^verbatim>\<open>decompress\<close> resolves with is whatever the token decodes to: any JavaScript value
  that JSON can carry, or \<^verbatim>\<open>undefined\<close>. The codec itself is the json-url library: whether
  it rejects or resolves, and with what, is an input here. An object is the list of its
  properties, each key once.
\<close>

datatype js_value =
    JUndefined
  | JNull
  | JBool bool
  | JNum number
  | JStr string
  | JArr "js_value list"
  | JObj "(string \<times> js_value) list"

text \<open>The values an \<^verbatim>\<open>if\<close> takes for true.\<close>

fun truthy :: "js_value \<Rightarrow> bool" where
  "truthy JUndefined = False"
| "truthy JNull = False"
| "truthy (JBool b) = b"
| "truthy (JNum n) = (n \<noteq> 0)"
| "truthy (JStr s) = (s \<noteq> [])"
| "truthy (JArr xs) = True"
| "truthy (JObj props) = True"

text \<open>
  Reading the property \<^verbatim>\<open>verses\<close> or \<^verbatim>\<open>title\<close> of a value other than \<^verbatim>\<open>null\<close> and
  \<^verbatim>\<open>undefined\<close>: an object gives what it holds under the key, and \<^verbatim>\<open>undefined\<close> when it
  holds nothing; a boolean, a number, a string and an array have neither property.
\<close>

fun property :: "string \<Rightarrow> js_value \<Rightarrow> js_value" where
  "property key (JObj props) = (case map_of props key of Some x \<Rightarrow> x | None \<Rightarrow> JUndefined)"
| "property key x = JUndefined"

text \<open>
  The parameter \<^verbatim>\<open>({ verses, title })\<close> of the callback: destructuring \<^verbatim>\<open>null\<close> or
  \<^verbatim>\<open>undefined\<close> throws a TypeError, any other value gives the two properties.
\<close>

fun destructure :: "js_value \<Rightarrow> js_error + js_value \<times> js_value" where
  "destructure JUndefined = Inl TypeError"
| "destructure JNull = Inl TypeError"
| "destructure x = Inr (property ''verses'' x, property ''title'' x)"

text \<open>
  The reducer on the action \<^verbatim>\<open>{ verses }\<close> the callback dispatches, with nothing checked
  about \<^verbatim>\<open>verses\<close>. A truthy value is returned as the new store. For a falsy one
  \<^verbatim>\<open>index\<close> and \<^verbatim>\<open>verse\<close> are \<^verbatim>\<open>undefined\<close> too, so \<^verbatim>\<open>!verse\<close> holds and the delete branch
  runs as \<^verbatim>\<open>verses.splice(0, undefined)\<close> and \<^verbatim>\<open>verses.splice(NaN)\<close>; both arguments
  convert to 0. The store is the array it was made with.
\<close>

definition replaceVerses :: "js_value list \<Rightarrow> js_value \<Rightarrow> js_value" where
  "replaceVerses store nextVerses =
     (if truthy nextVerses then nextVerses
      else (let (front, store1) = splice2 store 0 0;
                (back, store2) = splice1 store1 0
            in JArr (front @ back)))"

text \<open>
  The page as the mount effect sees it: the title, the verse store, the flag and the
  console. \<^verbatim>\<open>useState('')\<close>, \<^verbatim>\<open>useReducer(..., [])\<close> and \<^verbatim>\<open>useState(false)\<close> give the
  mounted page. While \<open>loaded\<close> is not set only \<^verbatim>\<open>Loading...\<close> is rendered, so nothing else
  changes the page before the promise settles, and the store the reducer gets is the
  empty array it started with.
\<close>

record page =
  page_title :: js_value
  page_verses :: js_value
  page_loaded :: bool
  page_console :: "string list"

definition mounted_verses :: "js_value list" where
  "mounted_verses = []"

definition mounted :: page where
  "mounted =
     \<lparr>page_title = JStr [], page_verses = JArr mounted_verses, page_loaded = False,
      page_console = []\<rparr>"

text \<open>
  The second \<^verbatim>\<open>useEffect\<close> (lines 79--88 of \<^verbatim>\<open>src/index.tsx\<close>, the same in the other two
  revisions), run once on mount, from the outcome of \<^verbatim>\<open>decompress\<close> on.
\<close>

definition load_effect :: "js_value settled \<Rightarrow> page \<times> unit settled" where
  "load_effect outcome =
     p_finally (\<lambda>s. s\<lparr>page_loaded := True\<rparr>)
       (p_catch (\<lambda>e s. (s\<lparr>page_console := page_console s @ [''No verses in URL'']\<rparr>,
                          Fulfilled ()))
          (p_then (\<lambda>x s.
               (case destructure x of
                  Inl e \<Rightarrow> (s, Rejected e)
                | Inr (nextVerses, nextTitle) \<Rightarrow>
                    (s\<lparr>page_title := nextTitle,
                       page_verses := replaceVerses mounted_verses nextVerses\<rparr>,
                     Fulfilled ())))
             (mounted, outcome)))"

text \<open>
  A value that is a document: an object whose \<^verbatim>\<open>title\<close> is a string and whose \<^verbatim>\<open>verses\<close> is
  an array of objects with a string \<^verbatim>\<open>text\<close> and a number \<^verbatim>\<open>pause\<close>. Anything else a
  token decodes to is no document.
\<close>

fun is_verse :: "js_value \<Rightarrow> bool" where
  "is_verse (JObj props) =
     (case (map_of props ''text'', map_of props ''pause'') of
        (Some (JStr t), Some (JNum p)) \<Rightarrow> True
      | _ \<Rightarrow> False)"
| "is_verse x = False"

definition is_document :: "js_value \<Rightarrow> bool" where
  "is_document x =
     (case (property ''title'' x, property ''verses'' x) of
        (JStr t, JArr vs) \<Rightarrow> list_all is_verse vs
      | _ \<Rightarrow> False)"

subsection \<open>Browser events\<close>

text \<open>
  The page is single-threaded: the code runs in callbacks, one event at a time, and the
  callbacks of a promise that an event resolves run before the next event. An event is a
  click or an edit in the form, the end of the utterance being spoken, or the expiry of a
  pending timeout. \<open>ClickDelete\<close> is the Delete button with the confirmation accepted;
  \<open>ChangePause index p\<close> is an edit of the pause field that makes the pause \<open>p\<close>
  milliseconds (\<^verbatim>\<open>e.target.valueAsNumber * 1000\<close>). The controls are rendered once
  \<open>loaded\<close> is set; the events are not restricted to that here, which only adds states.
\<close>

datatype event =
    ClickAdd
  | ClickClear
  | ClickDelete int
  | ChangeText int string
  | ChangePause int number
  | ChangeTitle string
  | ClickPlay
  | ClickStop
  | ClickTest int
  | UtteranceEnds
  | TimeoutFires nat

fun is_env :: "event \<Rightarrow> bool" where
  "is_env UtteranceEnds = True"
| "is_env (TimeoutFires n) = True"
| "is_env e = False"

text \<open>The form's edits of the document, the same in all three revisions.\<close>

definition dispatch :: "action \<Rightarrow> 'k app \<Rightarrow> 'k app" where
  "dispatch a s = s\<lparr>verses := updateVerses (verses s) a\<rparr>"

fun edit :: "event \<Rightarrow> 'k app \<Rightarrow> 'k app" where
  "edit ClickAdd s = dispatch (Edit (int (length (verses s))) (Some new_verse)) s"
| "edit ClickClear s = dispatch (Replace []) s"
| "edit (ClickDelete index) s = dispatch (Edit index None) s"
| "edit (ChangeText index t) s =
     dispatch (Edit index (Some \<lparr>verse_text = Some t, verse_pause = None\<rparr>)) s"
| "edit (ChangePause index p) s =
     dispatch (Edit index (Some \<lparr>verse_text = None, verse_pause = Some p\<rparr>)) s"
| "edit (ChangeTitle t) s = emit [SetTitle t] (s\<lparr>title := t\<rparr>)"
| "edit e s = s"

text \<open>\<^verbatim>\<open>clearTimeout(id)\<close>: the pending timeout with that id, if there is one, is dropped.\<close>

definition clear_timeout :: "int \<Rightarrow> 'k app \<Rightarrow> 'k app" where
  "clear_timeout ident s = s\<lparr>timers := filter (\<lambda>(i, k). int i \<noteq> ident) (timers s)\<rparr>"

text \<open>
  \<^verbatim>\<open>currentTimeout.current = setTimeout(resolve, pause)\<close>: a fresh id, remembered, with the
  continuation \<open>k\<close> of \<^verbatim>\<open>resolve\<close> pending under it.
\<close>

definition set_timeout :: "number option \<Rightarrow> 'k \<Rightarrow> 'k app \<Rightarrow> 'k app" where
  "set_timeout p k s =
     emit [SetTimeout (timerCount s) p]
       (s\<lparr>currentTimeout := int (timerCount s),
          timers := timers s @ [(timerCount s, k)],
          timerCount := Suc (timerCount s)\<rparr>)"

text \<open>
  \<^verbatim>\<open>utterance.addEventListener('end', ...)\<close> and \<^verbatim>\<open>speechSynthesis.speak(utterance)\<close>: the
  utterance joins the engine's queue, with the continuation \<open>k\<close> of its listener.
\<close>

definition speech_speak :: "utteranceInfo \<Rightarrow> 'k \<Rightarrow> 'k app \<Rightarrow> 'k app" where
  "speech_speak info k s =
     emit [SpeechSpeak (utterance info)] (s\<lparr>speechQueue := speechQueue s @ [(info, k)]\<rparr>)"

definition fire :: "nat \<Rightarrow> 'k app \<Rightarrow> 'k app" where
  "fire ident s =
     emit [TimeoutFired ident] (s\<lparr>timers := filter (\<lambda>(i, k). i \<noteq> ident) (timers s)\<rparr>)"

subsection \<open>Playback in src/index.tsx\<close>

text \<open>
  What resolving the promise of a \<^verbatim>\<open>speak\<close> call leads to. \<open>Chain jobs\<close>: the promise is a
  link of the chain \<^verbatim>\<open>play\<close> builds with \<^verbatim>\<open>reduce\<close>; \<open>jobs\<close> are the links after it, each an
  index with the \<^verbatim>\<open>UtteranceInfo\<close> made when \<^verbatim>\<open>play\<close> was called, and after the last one come
  \<^verbatim>\<open>.catch(console.log)\<close> and \<^verbatim>\<open>.finally(() => (isPlaying.current = false))\<close>. \<open>Alone\<close>: the
  promise of the Test button's \<^verbatim>\<open>speak(index)\<close>, which nothing waits for.
\<close>

datatype cont0 = Chain "(int \<times> utteranceInfo) list" | Alone

text \<open>
  \<^verbatim>\<open>speak\<close> rejects with \<^verbatim>\<open>'Not playing'\<close>: in a chain the links after it are skipped, the
  reason is logged and the flag is cleared.
\<close>

fun rejected0 :: "cont0 \<Rightarrow> cont0 app \<Rightarrow> cont0 app" where
  "rejected0 (Chain jobs) s =
     emit [ConsoleLog ''Not playing'', SetIsPlaying False] (s\<lparr>isPlaying := False\<rparr>)"
| "rejected0 Alone s = s"

text \<open>\<^verbatim>\<open>speak(index, utteranceInfo)\<close> (lines 112--126).\<close>

definition speak0 :: "int \<Rightarrow> utteranceInfo \<Rightarrow> cont0 \<Rightarrow> cont0 app \<Rightarrow> cont0 app" where
  "speak0 index info k s =
     (if isPlaying s
      then speech_speak info k (emit [SetCurrentVerse index] (s\<lparr>currentVerse := index\<rparr>))
      else rejected0 k s)"

text \<open>The \<^verbatim>\<open>'end'\<close> listener \<^verbatim>\<open>speak\<close> installs.\<close>

definition ended0 :: "utteranceInfo \<Rightarrow> cont0 \<Rightarrow> cont0 app \<Rightarrow> cont0 app" where
  "ended0 info k s =
     (let s1 = set_timeout (pause info) k s
      in emit [SetCurrentVerse (- 1)] (s1\<lparr>currentVerse := - 1\<rparr>))"

fun resolved0 :: "cont0 \<Rightarrow> cont0 app \<Rightarrow> cont0 app" where
  "resolved0 Alone s = s"
| "resolved0 (Chain []) s = emit [SetIsPlaying False] (s\<lparr>isPlaying := False\<rparr>)"
| "resolved0 (Chain ((index, info) # jobs)) s = speak0 index info (Chain jobs) s"

definition jobs0 :: "verse list \<Rightarrow> (int \<times> utteranceInfo) list" where
  "jobs0 vs = zip (map int [0 ..< length vs]) (map makeUtterance vs)"

text \<open>\<^verbatim>\<open>play\<close> (lines 128--139): the chain starts from \<^verbatim>\<open>Promise.resolve()\<close>.\<close>

definition play0 :: "cont0 app \<Rightarrow> cont0 app" where
  "play0 s = resolved0 (Chain (jobs0 (verses s))) s"

text \<open>
  The handlers of the Play, Stop and Test buttons (lines 180--197 and 257--265) and the
  two browser callbacks. \<^verbatim>\<open>makeUtterance(verses[index])\<close> destructures its argument and
  throws on \<^verbatim>\<open>undefined\<close>, after the flag was set.
\<close>

fun step0 :: "event \<Rightarrow> cont0 app \<Rightarrow> cont0 app" where
  "step0 ClickPlay s = play0 (emit [SetIsPlaying True] (s\<lparr>isPlaying := True\<rparr>))"
| "step0 ClickStop s =
     clear_timeout (currentTimeout s)
       (emit [SetIsPlaying False, ClearTimeout (currentTimeout s)] (s\<lparr>isPlaying := False\<rparr>))"
| "step0 (ClickTest index) s =
     (let s1 = emit [SetIsPlaying True] (s\<lparr>isPlaying := True\<rparr>)
      in case element_at (verses s1) index of
           None \<Rightarrow> s1
         | Some v \<Rightarrow> speak0 index (makeUtterance v) Alone s1)"
| "step0 UtteranceEnds s =
     (case speechQueue s of
        [] \<Rightarrow> s
      | (info, k) # queue \<Rightarrow>
          ended0 info k (emit [UtteranceEnded (utterance info)] (s\<lparr>speechQueue := queue\<rparr>)))"
| "step0 (TimeoutFires ident) s =
     (case map_of (timers s) ident of
        None \<Rightarrow> s
      | Some k \<Rightarrow> resolved0 k (fire ident s))"
| "step0 e s = edit e s"

definition exec0 :: "event list \<Rightarrow> cont0 app \<Rightarrow> cont0 app" where
  "exec0 es s = foldl (\<lambda>s e. step0 e s) s es"

subsection \<open>Playback in part_001 and part_002\<close>

text \<open>
  What follows a \<^verbatim>\<open>speak(index)\<close> whose promise resolves. \<open>Next jobs\<close>: the call is a link of
  the chain of \<^verbatim>\<open>play\<close>; \<open>jobs\<close> are the verses after it, each with its index, as the
  \<^verbatim>\<open>verses\<close> of the render that made \<^verbatim>\<open>play\<close> has them, and after the last one come
  \<^verbatim>\<open>.catch(console.log)\<close> and \<^verbatim>\<open>.finally(() => setIsPlaying(false))\<close>. \<open>Only\<close>: the Test button
  of \<^verbatim>\<open>part_001\<close>, which drops the promise. \<open>OnlyThen\<close>: the Test button of \<^verbatim>\<open>part_002\<close>,
  which goes on with \<^verbatim>\<open>setIsPlaying(false)\<close>.

  A pending continuation is the pair of the segments of the current verse still to be
  spoken and what follows the verse.

  The verses of a run are carried by value. In the code \<^verbatim>\<open>speak\<close> reads \<^verbatim>\<open>verses[index]\<close>
  when it is called, from the array of that render, and the reducer's delete branch
  splices that very array: a Delete during a run (possible in \<^verbatim>\<open>part_001\<close>; \<^verbatim>\<open>part_002\<close>
  disables the button) changes what the rest of the run reads. The runs considered below
  have no Delete in them.
\<close>

datatype after = Next "(int \<times> verse) list" | Only | OnlyThen

type_synonym cont1 = "utteranceInfo list \<times> after"

text \<open>
  The \<^verbatim>\<open>'end'\<close> listener of a segment: only the timeout; \<^verbatim>\<open>currentVerse\<close> is left alone.
\<close>

definition ended1 :: "utteranceInfo \<Rightarrow> cont1 \<Rightarrow> cont1 app \<Rightarrow> cont1 app" where
  "ended1 info k s = set_timeout (pause info) k s"

text \<open>
  \<^verbatim>\<open>speak\<close> (lines 124--145) and \<^verbatim>\<open>play\<close> (lines 147--156), as three functions that call
  each other the way the promise callbacks do.

  \<open>segments1 rv infos a\<close> is the inner \<^verbatim>\<open>reduce\<close> chain of \<^verbatim>\<open>speak\<close> at a link whose
  predecessor has resolved: the next segment is handed to the engine, or, with none left,
  \<^verbatim>\<open>.then(resolve)\<close> and \<^verbatim>\<open>.finally(() => setCurrentVerse(-1))\<close> run, which is
  \<open>after1 rv a\<close>. \<^verbatim>\<open>resolve\<close> queues the callbacks waiting on the promise of \<^verbatim>\<open>speak\<close>, then
  the callback of \<^verbatim>\<open>finally\<close> is queued. In the chain of \<^verbatim>\<open>play\<close> the waiting callback
  only settles the link, and the next \<^verbatim>\<open>speak\<close> (or the final \<^verbatim>\<open>setIsPlaying(false)\<close>) is
  queued behind \<^verbatim>\<open>finally\<close>: \<^verbatim>\<open>setCurrentVerse(-1)\<close> comes first. The Test button of
  \<^verbatim>\<open>part_002\<close> waits on the promise itself: its \<^verbatim>\<open>setIsPlaying(false)\<close> comes first.

  \<open>chain1 rv jobs\<close> is the outer chain of \<^verbatim>\<open>play\<close> at a link whose predecessor has
  resolved. The default argument \<^verbatim>\<open>makeUtterances(verses[index])\<close> is evaluated when
  \<^verbatim>\<open>speak\<close> is called, before \<^verbatim>\<open>setCurrentVerse(index)\<close>; when it throws, the chain
  rejects, \<^verbatim>\<open>console.log\<close> gets the error and \<^verbatim>\<open>finally\<close> clears the flag.
\<close>

function (sequential) segments1 :: "revision \<Rightarrow> utteranceInfo list \<Rightarrow> after \<Rightarrow> cont1 app \<Rightarrow> cont1 app"
  and after1 :: "revision \<Rightarrow> after \<Rightarrow> cont1 app \<Rightarrow> cont1 app"
  and chain1 :: "revision \<Rightarrow> (int \<times> verse) list \<Rightarrow> cont1 app \<Rightarrow> cont1 app" where
  "segments1 rv (info # infos) a s = speech_speak info (infos, a) s"
| "segments1 rv [] a s = after1 rv a s"
| "after1 rv (Next jobs) s =
     chain1 rv jobs (emit [SetCurrentVerse (- 1)] (s\<lparr>currentVerse := - 1\<rparr>))"
| "after1 rv Only s = emit [SetCurrentVerse (- 1)] (s\<lparr>currentVerse := - 1\<rparr>)"
| "after1 rv OnlyThen s =
     emit [SetIsPlaying False, SetCurrentVerse (- 1)]
       (s\<lparr>isPlaying := False, currentVerse := - 1\<rparr>)"
| "chain1 rv [] s = emit [SetIsPlaying False] (s\<lparr>isPlaying := False\<rparr>)"
| "chain1 rv ((index, v) # jobs) s =
     (case makeUtterances rv v of
        Inl e \<Rightarrow> emit [ConsoleLog ''TypeError'', SetIsPlaying False] (s\<lparr>isPlaying := False\<rparr>)
      | Inr infos \<Rightarrow>
          segments1 rv infos (Next jobs)
            (emit [SetCurrentVerse index] (s\<lparr>currentVerse := index\<rparr>)))"
  by pat_completeness auto

text \<open>Each call leaves fewer verses to speak, or stays with them and is nearer to the next one.\<close>

termination
  by (relation "measure (\<lambda>call. case call of
        Inl (rv, infos, a, s) \<Rightarrow> (case a of Next jobs \<Rightarrow> 3 * length jobs + 3 | _ \<Rightarrow> 1)
      | Inr (Inl (rv, a, s)) \<Rightarrow> (case a of Next jobs \<Rightarrow> 3 * length jobs + 2 | _ \<Rightarrow> 0)
      | Inr (Inr (rv, jobs, s)) \<Rightarrow> 3 * length jobs + 1)")
    (auto split: after.splits)

definition jobs1 :: "verse list \<Rightarrow> (int \<times> verse) list" where
  "jobs1 vs = zip (map int [0 ..< length vs]) vs"

definition play1 :: "revision \<Rightarrow> cont1 app \<Rightarrow> cont1 app" where
  "play1 rv s = chain1 rv (jobs1 (verses s)) (emit [SetIsPlaying True] (s\<lparr>isPlaying := True\<rparr>))"

text \<open>
  \<^verbatim>\<open>stop\<close> (lines 158--163). \<^verbatim>\<open>speechSynthesis.cancel()\<close> empties the engine's queue; the
  utterances removed get an \<^verbatim>\<open>'error'\<close> event and no \<^verbatim>\<open>'end'\<close> event (Web Speech API),
  and the code listens to \<^verbatim>\<open>'end'\<close> only, so their continuations are gone.
\<close>

definition stop1 :: "cont1 app \<Rightarrow> cont1 app" where
  "stop1 s =
     emit [SetIsPlaying False, ClearTimeout (currentTimeout s), SpeechCancel, SetCurrentVerse (- 1)]
       ((clear_timeout (currentTimeout s) s)
          \<lparr>isPlaying := False, speechQueue := [], currentVerse := - 1\<rparr>)"

text \<open>
  The Test button: \<^verbatim>\<open>setIsPlaying(true)\<close>, then \<^verbatim>\<open>speak(index)\<close>; \<^verbatim>\<open>part_002\<close> adds
  \<^verbatim>\<open>.then(() => setIsPlaying(false))\<close>. When \<^verbatim>\<open>makeUtterances(verses[index])\<close> throws, the
  handler ends there, with the flag set.
\<close>

definition test1 :: "revision \<Rightarrow> int \<Rightarrow> cont1 app \<Rightarrow> cont1 app" where
  "test1 rv index s =
     (let s1 = emit [SetIsPlaying True] (s\<lparr>isPlaying := True\<rparr>)
      in case element_at (verses s1) index of
           None \<Rightarrow> s1
         | Some v \<Rightarrow>
             (case makeUtterances rv v of
                Inl e \<Rightarrow> s1
              | Inr infos \<Rightarrow>
                  segments1 rv infos (case rv of Part1 \<Rightarrow> Only | Part2 \<Rightarrow> OnlyThen)
                    (emit [SetCurrentVerse index] (s1\<lparr>currentVerse := index\<rparr>))))"

text \<open>
  \<^verbatim>\<open>part_002\<close> disables controls with \<^verbatim>\<open>disabled={isPlaying}\<close> (Add Verse, Clear, Play, Test,
  Delete) and \<^verbatim>\<open>disabled={!isPlaying}\<close> (Stop); a disabled button gets no click.
  \<^verbatim>\<open>part_001\<close> disables nothing.
\<close>

fun disabled :: "revision \<Rightarrow> 'k app \<Rightarrow> event \<Rightarrow> bool" where
  "disabled Part1 s e = False"
| "disabled Part2 s ClickAdd = isPlaying s"
| "disabled Part2 s ClickClear = isPlaying s"
| "disabled Part2 s ClickPlay = isPlaying s"
| "disabled Part2 s (ClickTest index) = isPlaying s"
| "disabled Part2 s (ClickDelete index) = isPlaying s"
| "disabled Part2 s ClickStop = (\<not> isPlaying s)"
| "disabled Part2 s e = False"

fun handle1 :: "revision \<Rightarrow> event \<Rightarrow> cont1 app \<Rightarrow> cont1 app" where
  "handle1 rv ClickPlay s = play1 rv s"
| "handle1 rv ClickStop s = stop1 s"
| "handle1 rv (ClickTest index) s = test1 rv index s"
| "handle1 rv UtteranceEnds s =
     (case speechQueue s of
        [] \<Rightarrow> s
      | (info, k) # queue \<Rightarrow>
          ended1 info k (emit [UtteranceEnded (utterance info)] (s\<lparr>speechQueue := queue\<rparr>)))"
| "handle1 rv (TimeoutFires ident) s =
     (case map_of (timers s) ident of
        None \<Rightarrow> s
      | Some (infos, a) \<Rightarrow> segments1 rv infos a (fire ident s))"
| "handle1 rv e s = edit e s"

definition step1 :: "revision \<Rightarrow> event \<Rightarrow> cont1 app \<Rightarrow> cont1 app" where
  "step1 rv e s = (if disabled rv s e then s else handle1 rv e s)"

definition exec1 :: "revision \<Rightarrow> event list \<Rightarrow> cont1 app \<Rightarrow> cont1 app" where
  "exec1 rv es s = foldl (\<lambda>s e. step1 rv e s) s es"

subsection \<open>Runs\<close>

text \<open>
  Nothing is pending and no verse is highlighted; \<open>idle\<close> adds that the flag is down
  (the \<^verbatim>\<open>Idle\<close> of the specification).
\<close>

definition at_rest :: "'k app \<Rightarrow> bool" where
  "at_rest s \<longleftrightarrow> speechQueue s = [] \<and> timers s = [] \<and> currentVerse s = - 1"

definition idle :: "'k app \<Rightarrow> bool" where
  "idle s \<longleftrightarrow> \<not> isPlaying s \<and> at_rest s"


text \<open>The effects of a whole run of \<^verbatim>\<open>src/index.tsx\<close> over its jobs, in order.\<close>

fun run_trace0 :: "nat \<Rightarrow> (int \<times> utteranceInfo) list \<Rightarrow> effect list" where
  "run_trace0 c [] = [SetIsPlaying False]"
| "run_trace0 c ((index, info) # jobs) =
     [SetCurrentVerse index, SpeechSpeak (utterance info), UtteranceEnded (utterance info),
      SetTimeout c (pause info), SetCurrentVerse (- 1), TimeoutFired c]
     @ run_trace0 (Suc c) jobs"

text \<open>
  The states of a run of \<^verbatim>\<open>src/index.tsx\<close> over the jobs \<open>js\<close>, whose whole trace is to be
  \<open>full\<close>. At rest: nothing is pending, no verse is highlighted and the trace is complete.
  Speaking: one utterance is with the engine, it is the job of the highlighted verse, and
  the jobs after it wait. Pausing: no utterance is with the engine, no verse is
  highlighted, and the one pending timeout is the one \<^verbatim>\<open>currentTimeout\<close> names, with the
  jobs that wait. In each case the trace so far, continued by what the pending jobs will
  do, is \<open>full\<close>.
\<close>

inductive run_inv0 :: "(int \<times> utteranceInfo) list \<Rightarrow> effect list \<Rightarrow> cont0 app \<Rightarrow> bool"
  for js :: "(int \<times> utteranceInfo) list" and full :: "effect list" where
  resting0:
    "speechQueue t = [] \<Longrightarrow> timers t = [] \<Longrightarrow> currentVerse t = - 1 \<Longrightarrow> trace t = full \<Longrightarrow>
     run_inv0 js full t"
| speaking0:
    "speechQueue t = [(info, Chain rest)] \<Longrightarrow> timers t = [] \<Longrightarrow> isPlaying t \<Longrightarrow>
     suffix ((currentVerse t, info) # rest) js \<Longrightarrow>
     trace t @ [UtteranceEnded (utterance info), SetTimeout (timerCount t) (pause info),
        SetCurrentVerse (- 1), TimeoutFired (timerCount t)]
       @ run_trace0 (Suc (timerCount t)) rest = full \<Longrightarrow>
     run_inv0 js full t"
| pausing0:
    "speechQueue t = [] \<Longrightarrow> timers t = [(ident, Chain rest)] \<Longrightarrow> isPlaying t \<Longrightarrow>
     currentTimeout t = int ident \<Longrightarrow> currentVerse t = - 1 \<Longrightarrow> suffix rest js \<Longrightarrow>
     trace t @ TimeoutFired ident # run_trace0 (timerCount t) rest = full \<Longrightarrow>
     run_inv0 js full t"


text \<open>
  The same for \<^verbatim>\<open>part_001\<close> and \<^verbatim>\<open>part_002\<close>: the effects of the segments of one verse, with
  the timeout ids counted from \<open>c\<close>, and of a whole run over its jobs. A verse whose
  \<^verbatim>\<open>makeUtterances\<close> throws ends the run; \<open>segment_count\<close> is the number of utterances the
  run speaks.
\<close>

fun seg_trace :: "nat \<Rightarrow> utteranceInfo list \<Rightarrow> effect list" where
  "seg_trace c [] = []"
| "seg_trace c (info # infos) =
     [SpeechSpeak (utterance info), UtteranceEnded (utterance info),
      SetTimeout c (pause info), TimeoutFired c]
     @ seg_trace (Suc c) infos"

fun run_trace1 :: "revision \<Rightarrow> nat \<Rightarrow> (int \<times> verse) list \<Rightarrow> effect list" where
  "run_trace1 rv c [] = [SetIsPlaying False]"
| "run_trace1 rv c ((index, v) # jobs) =
     (case makeUtterances rv v of
        Inl e \<Rightarrow> [ConsoleLog ''TypeError'', SetIsPlaying False]
      | Inr infos \<Rightarrow>
          SetCurrentVerse index # seg_trace c infos
            @ SetCurrentVerse (- 1) # run_trace1 rv (c + length infos) jobs)"



text \<open>
  The states of such a run, whose flag \<^verbatim>\<open>play\<close> has set. Speaking and pausing both keep the verse highlighted: \<open>v\<close> is
  the verse of the highlighted index, \<open>infos\<close> its segments, and the segment with the
  engine and those still to come are the last of them.
\<close>

inductive run_inv1 :: "revision \<Rightarrow> (int \<times> verse) list \<Rightarrow> effect list \<Rightarrow> cont1 app \<Rightarrow> bool"
  for rv :: revision and js :: "(int \<times> verse) list" and full :: "effect list" where
  resting1:
    "speechQueue t = [] \<Longrightarrow> timers t = [] \<Longrightarrow> currentVerse t = - 1 \<Longrightarrow> trace t = full \<Longrightarrow>
     run_inv1 rv js full t"
| speaking1:
    "speechQueue t = [(info, (later, Next rest))] \<Longrightarrow> timers t = [] \<Longrightarrow> isPlaying t \<Longrightarrow>
     suffix ((currentVerse t, v) # rest) js \<Longrightarrow>
     makeUtterances rv v = Inr infos \<Longrightarrow> suffix (info # later) infos \<Longrightarrow>
     trace t @ [UtteranceEnded (utterance info), SetTimeout (timerCount t) (pause info),
        TimeoutFired (timerCount t)]
       @ seg_trace (Suc (timerCount t)) later
       @ SetCurrentVerse (- 1) # run_trace1 rv (Suc (timerCount t) + length later) rest = full \<Longrightarrow>
     run_inv1 rv js full t"
| pausing1:
    "speechQueue t = [] \<Longrightarrow> timers t = [(ident, (later, Next rest))] \<Longrightarrow> isPlaying t \<Longrightarrow>
     currentTimeout t = int ident \<Longrightarrow>
     suffix ((currentVerse t, v) # rest) js \<Longrightarrow>
     makeUtterances rv v = Inr infos \<Longrightarrow> suffix later infos \<Longrightarrow>
     trace t @ TimeoutFired ident # seg_trace (timerCount t) later
       @ SetCurrentVerse (- 1) # run_trace1 rv (timerCount t + length later) rest = full \<Longrightarrow>
     run_inv1 rv js full t"

text \<open>
  The states the form of \<^verbatim>\<open>part_002\<close> can reach, whatever is clicked: nothing is pending,
  or the flag is up and one utterance is with the engine, or the flag is up and one
  timeout is pending, the one \<^verbatim>\<open>currentTimeout\<close> names.
\<close>

inductive ui_inv :: "cont1 app \<Rightarrow> bool" where
  ui_resting: "speechQueue t = [] \<Longrightarrow> timers t = [] \<Longrightarrow> ui_inv t"
| ui_speaking: "isPlaying t \<Longrightarrow> speechQueue t = [entry] \<Longrightarrow> timers t = [] \<Longrightarrow> ui_inv t"
| ui_pausing:
    "isPlaying t \<Longrightarrow> speechQueue t = [] \<Longrightarrow> timers t = [(ident, k)] \<Longrightarrow>
     currentTimeout t = int ident \<Longrightarrow> ui_inv t"

text \<open>
  The loaded page with the two verses A (pause 500) and B (pause 300), as each revision
  has it before anything is played.
\<close>

definition page0 :: "cont0 app" where
  "page0 = initial\<lparr>verses := [verseA, verseB], loaded := True\<rparr>"

definition page1 :: "cont1 app" where
  "page1 = initial\<lparr>verses := [verseA, verseB], loaded := True\<rparr>"

definition uttA :: utterance where
  "uttA = \<lparr>utt_text = ''A'', rate = 0.6, pitch = 0.6\<rparr>"

definition uttB :: utterance where
  "uttB = \<lparr>utt_text = ''B'', rate = 0.6, pitch = 0.6\<rparr>"

section \<open>Theorems\<close>

subsection \<open>The reducer\<close>

lemma updateVerses_delete_eq:
  "0 \<le> index \<Longrightarrow>
   updateVerses vs (Edit index None) = take (nat index) vs @ drop (2 * nat index + 1) vs"
proof -
  assume nonneg: "0 \<le> index"
  then have shift: "nat (index + 1) = Suc (nat index)"
    by simp
  show ?thesis
    using nonneg
    by (simp add: splice2_def splice1_def relative_index_def Let_def min_def max_def shift mult_2
        del: nat_add_distrib)
qed

text \<open>
  C1. Deleting index \<open>k\<close> of an \<open>n\<close>-verse list should give the \<open>n - 1\<close> verses that remain,
  in order. The delete branch does not: at \<open>k = 1\<close> of the three verses A, B, C it returns
  the single verse A, where the claim asks for A, C.
\<close>

theorem delete_middle_loses_tail:
  "updateVerses [verseA, verseB, verseC] (Edit 1 None) = [verseA]
   \<and> without 1 [verseA, verseB, verseC] = [verseA, verseC]
   \<and> updateVerses [verseA, verseB, verseC] (Edit 1 None) \<noteq> without 1 [verseA, verseB, verseC]"
  by (simp add: splice2_def splice1_def relative_index_def without_def)

text \<open>
  C5 as stated: an index outside \<open>0 \<le> index < length\<close> leaves the list as it is (the
  reducer has no failing result). It does not hold: Add Verse dispatches an update at
  \<open>index = length\<close>, and the reducer appends.
\<close>

theorem add_at_length_changes_list:
  "\<not> (0 \<le> (0::int) \<and> (0::int) < int (length ([]::verse list)))
   \<and> updateVerses [] (Edit 0 (Some new_verse)) = [new_verse]
   \<and> updateVerses [] (Edit 0 (Some new_verse)) \<noteq> []"
  by (simp add: slice2_def slice1_def relative_index_def element_at_def spread_def
      empty_object_def new_verse_def)

text \<open>
  C5, amended. The reducer validates nothing and has no failing result. An update at an
  index at or beyond the length appends one verse, made of the fields supplied, and keeps
  the verses that were there; a delete at such an index returns the list as it was.
\<close>

theorem edit_beyond_length:
  assumes "int (length vs) \<le> index"
  shows "updateVerses vs (Edit index (Some v)) = vs @ [spread empty_object v]
         \<and> updateVerses vs (Edit index None) = vs"
proof -
  from assms have nonneg: "0 \<le> index"
    by simp
  from assms have len: "length vs \<le> nat index"
    by simp
  from assms have next_len: "length vs < nat (index + 1)"
    by linarith
  have "updateVerses vs (Edit index (Some v)) = vs @ [spread empty_object v]"
    using assms nonneg next_len len
    by (auto simp add: slice2_def slice1_def relative_index_def element_at_def min_def
        simp del: nat_add_distrib)
  moreover have "updateVerses vs (Edit index None) = vs"
    using len unfolding updateVerses_delete_eq [OF nonneg] by simp
  ultimately show ?thesis
    by simp
qed

theorem edit_beyond_length_witness:
  "int (length [verseA]) \<le> 1
   \<and> updateVerses [verseA] (Edit 1 (Some new_verse)) = [verseA, new_verse]
   \<and> updateVerses [verseA] (Edit 1 None) = [verseA]"
  using edit_beyond_length [of "[verseA]" 1 new_verse]
  by (simp add: spread_def empty_object_def new_verse_def)

subsection \<open>Page load\<close>

text \<open>
  C8 as stated: whenever the token does not decode to a document, the page ends with the
  title \<open>''''\<close> and no verses. It does not hold: \<^verbatim>\<open>decompress\<close> may resolve a malformed
  token with a value that is no document, a number say; the callback then destructures
  it without complaint and \<^verbatim>\<open>setTitle(undefined)\<close> runs.
\<close>

theorem number_token_sets_title_undefined:
  "\<not> is_document (JNum 105)
   \<and> page_title (fst (load_effect (Fulfilled (JNum 105)))) = JUndefined
   \<and> page_title (fst (load_effect (Fulfilled (JNum 105)))) \<noteq> JStr []
   \<and> page_console (fst (load_effect (Fulfilled (JNum 105)))) = []"
  by (simp add: is_document_def load_effect_def p_then_def p_catch_def p_finally_def
      replaceVerses_def splice2_def splice1_def relative_index_def mounted_def
      mounted_verses_def)

text \<open>
  C8, amended. Whatever \<^verbatim>\<open>decompress\<close> does, the promise chain of the mount effect ends
  fulfilled and \<open>loaded\<close> is set. When it rejects, or resolves with \<^verbatim>\<open>null\<close> or
  \<^verbatim>\<open>undefined\<close> (the callback throws on destructuring), the page keeps the title \<open>''''\<close> and
  no verses, and the console gets the one line. When it resolves with any other value,
  nothing is logged and nothing is checked: the value's \<^verbatim>\<open>title\<close> becomes the title
  (\<^verbatim>\<open>undefined\<close> if it has none) and its \<^verbatim>\<open>verses\<close>, if truthy, becomes the verse store,
  which otherwise stays the empty array.
\<close>

theorem load_outcomes:
  "page_loaded (fst (load_effect outcome))
   \<and> snd (load_effect outcome) = Fulfilled ()
   \<and> load_effect (Rejected e) =
       (mounted\<lparr>page_loaded := True, page_console := [''No verses in URL'']\<rparr>, Fulfilled ())
   \<and> (x = JNull \<or> x = JUndefined \<longrightarrow>
        load_effect (Fulfilled x) =
          (mounted\<lparr>page_loaded := True, page_console := [''No verses in URL'']\<rparr>,
           Fulfilled ()))
   \<and> (x \<noteq> JNull \<and> x \<noteq> JUndefined \<longrightarrow>
        load_effect (Fulfilled x) =
          (mounted\<lparr>page_title := property ''title'' x,
                    page_verses := (if truthy (property ''verses'' x) then property ''verses'' x
                                    else JArr []),
                    page_loaded := True\<rparr>,
           Fulfilled ()))
   \<and> page_title mounted = JStr [] \<and> page_verses mounted = JArr []"
proof -
  have rejected: "load_effect (Rejected e') =
       (mounted\<lparr>page_loaded := True, page_console := [''No verses in URL'']\<rparr>, Fulfilled ())"
    for e'
    by (simp add: load_effect_def p_then_def p_catch_def p_finally_def mounted_def)
  have thrown: "load_effect (Fulfilled y) =
       (mounted\<lparr>page_loaded := True, page_console := [''No verses in URL'']\<rparr>, Fulfilled ())"
    if "y = JNull \<or> y = JUndefined" for y
    using that
    by (auto simp add: load_effect_def p_then_def p_catch_def p_finally_def mounted_def)
  have stored: "load_effect (Fulfilled y) =
       (mounted\<lparr>page_title := property ''title'' y,
                 page_verses := (if truthy (property ''verses'' y) then property ''verses'' y
                                 else JArr []),
                 page_loaded := True\<rparr>,
        Fulfilled ())"
    if "y \<noteq> JNull \<and> y \<noteq> JUndefined" for y
    using that
    by (cases y)
      (simp_all add: load_effect_def p_then_def p_catch_def p_finally_def replaceVerses_def
        splice2_def splice1_def relative_index_def mounted_def mounted_verses_def)
  have always: "page_loaded (fst (load_effect outcome)) \<and> snd (load_effect outcome) = Fulfilled ()"
  proof (cases outcome)
    case (Rejected e')
    then show ?thesis
      by (simp add: rejected)
  next
    case (Fulfilled y)
    show ?thesis
    proof (cases "y = JNull \<or> y = JUndefined")
      case True
      then show ?thesis
        by (simp add: Fulfilled thrown)
    next
      case False
      then show ?thesis
        by (simp add: Fulfilled stored)
    qed
  qed
  from always rejected [of e] thrown [of x] stored [of x] show ?thesis
    by (simp add: mounted_def mounted_verses_def)
qed

theorem load_outcomes_witness:
  "load_effect (Rejected (Reason ''bad token'')) =
     (mounted\<lparr>page_loaded := True, page_console := [''No verses in URL'']\<rparr>, Fulfilled ())
   \<and> load_effect (Fulfilled JNull) =
     (mounted\<lparr>page_loaded := True, page_console := [''No verses in URL'']\<rparr>, Fulfilled ())
   \<and> JNum 105 \<noteq> JNull \<and> JNum 105 \<noteq> JUndefined
   \<and> load_effect (Fulfilled (JNum 105)) =
     (mounted\<lparr>page_title := JUndefined, page_verses := JArr [], page_loaded := True\<rparr>,
      Fulfilled ())
   \<and> page_loaded (fst (load_effect (Fulfilled (JObj [(''title'', JStr ''t'')]))))
   \<and> page_title (fst (load_effect (Fulfilled (JObj [(''title'', JStr ''t'')])))) = JStr ''t''"
  using load_outcomes [of "Fulfilled (JObj [(''title'', JStr ''t'')])" "Reason ''bad token''" JNull]
    load_outcomes [of "Fulfilled (JNum 105)" "Reason ''bad token''" "JNum 105"]
    load_outcomes [of "Fulfilled JNull" "Reason ''bad token''" "JObj [(''title'', JStr ''t'')]"]
  by simp

subsection \<open>Utterances\<close>

lemma js_split_not_Nil: "js_split sep t \<noteq> []"
  by (induction t) simp_all

lemma length_js_split: "length (js_split sep t) = Suc (count_list t sep)"
proof (induction t)
  case Nil
  show ?case by simp
next
  case (Cons c cs)
  have "length (tl (js_split sep cs)) = count_list cs sep"
    using Cons.IH by simp
  then show ?case
    using Cons.IH by simp
qed

lemma js_join_Cons_Cons: "js_join sep ((c # p) # ps) = c # js_join sep (p # ps)"
  by (cases ps) simp_all

lemma js_join_Nil_Cons: "ps \<noteq> [] \<Longrightarrow> js_join sep ([] # ps) = sep # js_join sep ps"
  by (cases ps) simp_all

lemma js_join_js_split: "js_join sep (js_split sep t) = t"
proof (induction t)
  case Nil
  show ?case by simp
next
  case (Cons c cs)
  have whole: "hd (js_split sep cs) # tl (js_split sep cs) = js_split sep cs"
    using js_split_not_Nil [of sep cs] by simp
  show ?case
  proof (cases "c = sep")
    case True
    then show ?thesis
      using Cons.IH js_split_not_Nil [of sep cs] by (simp add: js_join_Nil_Cons)
  next
    case False
    then show ?thesis
      using Cons.IH by (simp add: js_join_Cons_Cons whole)
  qed
qed

lemma js_split_parts_free: "p \<in> set (js_split sep t) \<Longrightarrow> sep \<notin> set p"
proof (induction t arbitrary: p)
  case Nil
  then show ?case by simp
next
  case (Cons c cs)
  have whole: "js_split sep cs = hd (js_split sep cs) # tl (js_split sep cs)"
    using js_split_not_Nil [of sep cs] by simp
  have hd_in: "hd (js_split sep cs) \<in> set (js_split sep cs)"
    using js_split_not_Nil [of sep cs] by simp
  have tl_in: "set (tl (js_split sep cs)) \<subseteq> set (js_split sep cs)"
    by (metis list.set_sel(2) subsetI tl_Nil)
  show ?case
  proof (cases "c = sep")
    case True
    with Cons show ?thesis by auto
  next
    case False
    with Cons.prems have "p = c # hd (js_split sep cs) \<or> p \<in> set (tl (js_split sep cs))"
      by simp
    then show ?thesis
      using Cons.IH hd_in tl_in False by auto
  qed
qed

lemma makeUtterances_Some:
  "verse_text v = Some t \<Longrightarrow>
   makeUtterances rv v =
     Inr (map (\<lambda>(part, index).
            \<lparr>utterance = \<lparr>utt_text = spoken rv part, rate = 0.6, pitch = 0.6\<rparr>,
             pause = (if index = length (js_split CHR '','' t) - 1 then verse_pause v
                      else Some segment_pause)\<rparr>)
          (zip (js_split CHR '','' t) [0 ..< length (js_split CHR '','' t)]))"
  by (simp add: makeUtterances_def Let_def)

lemma spoken_not_Nil: "spoken rv part \<noteq> []"
  by (cases rv) (simp_all add: spoken_def)

text \<open>
  C9. In \<^verbatim>\<open>part_001\<close> and \<^verbatim>\<open>part_002\<close> a verse whose text has \<open>n\<close> commas is spoken as
  \<open>n + 1\<close> segments, one for each part between the commas (the parts joined by commas are
  the text, and no part holds a comma). Every segment but the last is followed by the
  constant pause of 300 ms, which is no field of the verse and is shorter than the 1000 ms
  a new verse starts with; the last segment is followed by the verse's own pause.
\<close>

theorem segments_of_a_verse:
  assumes "verse_text v = Some t"
  shows "\<exists>us. makeUtterances rv v = Inr us
     \<and> length us = Suc (count_list t CHR '','')
     \<and> map (\<lambda>u. utt_text (utterance u)) us = map (spoken rv) (js_split CHR '','' t)
     \<and> js_join CHR '','' (js_split CHR '','' t) = t
     \<and> (\<forall>p \<in> set (js_split CHR '','' t). CHR '','' \<notin> set p)
     \<and> (\<forall>i. i < length us - 1 \<longrightarrow> pause (us ! i) = Some segment_pause)
     \<and> pause (last us) = verse_pause v
     \<and> segment_pause = 300
     \<and> (\<exists>p. verse_pause new_verse = Some p \<and> segment_pause < p)"
proof -
  let ?parts = "js_split CHR '','' t"
  let ?f = "\<lambda>(part, index).
            \<lparr>utterance = \<lparr>utt_text = spoken rv part, rate = 0.6, pitch = 0.6\<rparr>,
             pause = (if index = length ?parts - 1 then verse_pause v
                      else Some segment_pause)\<rparr>"
  let ?us = "map ?f (zip ?parts [0 ..< length ?parts])"
  have made: "makeUtterances rv v = Inr ?us"
    using assms by (rule makeUtterances_Some)
  have len: "length ?us = Suc (count_list t CHR '','')"
    by (simp add: length_js_split)
  have texts: "map (\<lambda>u. utt_text (utterance u)) ?us = map (spoken rv) ?parts"
    by (rule nth_equalityI) simp_all
  have inner: "\<forall>i. i < length ?us - 1 \<longrightarrow> pause (?us ! i) = Some segment_pause"
    by simp
  have nonempty: "?us \<noteq> []"
    using len by auto
  have "pause (last ?us) = pause (?us ! (length ?us - 1))"
    by (rule arg_cong [OF last_conv_nth [OF nonempty]])
  also have "\<dots> = verse_pause v"
    using nonempty by simp
  finally have final: "pause (last ?us) = verse_pause v" .
  have short: "\<exists>p. verse_pause new_verse = Some p \<and> segment_pause < p"
    by (simp add: new_verse_def segment_pause_def)
  show ?thesis
    using made len texts inner final short js_join_js_split [of "CHR '',''" t]
      js_split_parts_free [of _ "CHR '',''" t]
    by (intro exI [of _ ?us] conjI) (simp_all add: segment_pause_def)
qed

theorem segments_of_a_verse_witness:
  "verse_text verseAB = Some ''a,b''
   \<and> (\<exists>us. makeUtterances Part2 verseAB = Inr us
     \<and> length us = 2
     \<and> map (\<lambda>u. utt_text (utterance u)) us = [''a'', ''b'']
     \<and> pause (us ! 0) = Some 300
     \<and> pause (last us) = Some 1000)"
proof -
  have "verse_text verseAB = Some ''a,b''"
    by (simp add: verseAB_def)
  from segments_of_a_verse [OF this, of Part2]
  obtain us where made: "makeUtterances Part2 verseAB = Inr us"
    and len: "length us = Suc (count_list ''a,b'' CHR '','')"
    and texts: "map (\<lambda>u. utt_text (utterance u)) us = map (spoken Part2) (js_split CHR '','' ''a,b'')"
    and inner: "\<forall>i. i < length us - 1 \<longrightarrow> pause (us ! i) = Some segment_pause"
    and final: "pause (last us) = verse_pause verseAB"
    by blast
  from len have len2: "length us = 2"
    by simp
  from texts have texts2: "map (\<lambda>u. utt_text (utterance u)) us = [''a'', ''b'']"
    by (simp add: spoken_def)
  from inner len2 have first: "pause (us ! 0) = Some 300"
    by (simp add: segment_pause_def)
  from final have final2: "pause (last us) = Some 1000"
    by (simp add: verseAB_def)
  from made len2 texts2 first final2 show ?thesis
    by (simp add: verseAB_def)
qed

text \<open>
  C10. The utterance built from a verse never has an empty text and always has rate 0.6
  and pitch 0.6: in \<^verbatim>\<open>makeUtterance\<close> of \<^verbatim>\<open>src/index.tsx\<close>, and in every utterance that
  \<^verbatim>\<open>makeUtterances\<close> of \<^verbatim>\<open>part_001\<close> and \<^verbatim>\<open>part_002\<close> returns, which is at least one
  whenever the verse has a text. A verse whose text is the empty string is spoken as one
  space.
\<close>

theorem utterance_text_rate_pitch:
  "utt_text (utterance (makeUtterance v)) \<noteq> []
   \<and> rate (utterance (makeUtterance v)) = 0.6
   \<and> pitch (utterance (makeUtterance v)) = 0.6
   \<and> (verse_text v = Some [] \<longrightarrow> utt_text (utterance (makeUtterance v)) = '' '')
   \<and> (\<forall>us. makeUtterances rv v = Inr us \<longrightarrow>
         (\<forall>u \<in> set us. utt_text (utterance u) \<noteq> []
            \<and> rate (utterance u) = 0.6 \<and> pitch (utterance u) = 0.6))
   \<and> (verse_text v = Some [] \<longrightarrow>
         makeUtterances rv v =
           Inr [\<lparr>utterance = \<lparr>utt_text = '' '', rate = 0.6, pitch = 0.6\<rparr>,
                 pause = verse_pause v\<rparr>])
   \<and> (verse_text v \<noteq> None \<longrightarrow> (\<exists>us. makeUtterances rv v = Inr us \<and> us \<noteq> []))"
proof -
  have one: "utt_text (utterance (makeUtterance v)) \<noteq> []"
    by (simp add: makeUtterance_def split: option.splits)
  have two: "rate (utterance (makeUtterance v)) = 0.6 \<and> pitch (utterance (makeUtterance v)) = 0.6"
    by (simp add: makeUtterance_def)
  have three: "verse_text v = Some [] \<longrightarrow> utt_text (utterance (makeUtterance v)) = '' ''"
    by (simp add: makeUtterance_def)
  have four: "\<forall>us. makeUtterances rv v = Inr us \<longrightarrow>
         (\<forall>u \<in> set us. utt_text (utterance u) \<noteq> []
            \<and> rate (utterance u) = 0.6 \<and> pitch (utterance u) = 0.6)"
    by (auto simp add: makeUtterances_def Let_def spoken_not_Nil split: option.splits)
  have five: "verse_text v = Some [] \<longrightarrow>
         makeUtterances rv v =
           Inr [\<lparr>utterance = \<lparr>utt_text = '' '', rate = 0.6, pitch = 0.6\<rparr>,
                 pause = verse_pause v\<rparr>]"
    by (simp add: makeUtterances_def spoken_def)
  have six: "verse_text v \<noteq> None \<longrightarrow> (\<exists>us. makeUtterances rv v = Inr us \<and> us \<noteq> [])"
    using js_split_not_Nil [of "CHR '',''"]
    by (auto simp add: makeUtterances_def Let_def)
  from one two three four five six show ?thesis
    by blast
qed

theorem utterance_text_rate_pitch_witness:
  "verse_text new_verse = Some []
   \<and> utt_text (utterance (makeUtterance new_verse)) = '' ''
   \<and> rate (utterance (makeUtterance new_verse)) = 0.6
   \<and> pitch (utterance (makeUtterance new_verse)) = 0.6
   \<and> makeUtterances Part1 new_verse =
        Inr [\<lparr>utterance = \<lparr>utt_text = '' '', rate = 0.6, pitch = 0.6\<rparr>, pause = Some 1000\<rparr>]"
  using utterance_text_rate_pitch [of new_verse Part1]
  by (simp add: new_verse_def)

subsection \<open>Playback in src/index.tsx\<close>

lemmas prims = emit_def set_timeout_def speech_speak_def fire_def clear_timeout_def

lemma exec0_Nil: "exec0 [] s = s"
  by (simp add: exec0_def)

lemma exec0_Cons: "exec0 (e # es) s = exec0 es (step0 e s)"
  by (simp add: exec0_def)



lemma run_inv0_step:
  assumes "run_inv0 js full t" and "is_env e"
  shows "run_inv0 js full (step0 e t)"
  using assms(1)
proof cases
  case resting0
  then have "step0 e t = t"
    using assms(2) by (cases e) simp_all
  with assms(1) show ?thesis
    by simp
next
  case (speaking0 info rest)
  show ?thesis
  proof (cases e)
    case UtteranceEnds
    have "suffix rest js"
      using speaking0(4) by (rule suffix_ConsD)
    then show ?thesis
      using speaking0 UtteranceEnds
      by (intro run_inv0.pausing0 [where ident = "timerCount t" and rest = rest])
        (simp_all add: ended0_def prims Let_def)
  next
    case (TimeoutFires n)
    with speaking0 assms(1) show ?thesis
      by simp
  qed (use assms(2) in simp_all)
next
  case (pausing0 ident rest)
  show ?thesis
  proof (cases e)
    case UtteranceEnds
    with pausing0 assms(1) show ?thesis
      by simp
  next
    case (TimeoutFires n)
    show ?thesis
    proof (cases "n = ident")
      case False
      with pausing0 TimeoutFires assms(1) show ?thesis
        by simp
    next
      case True
      show ?thesis
      proof (cases rest)
        case Nil
        with pausing0 TimeoutFires True show ?thesis
          by (intro run_inv0.resting0) (simp_all add: prims)
      next
        case (Cons job later)
        obtain index info where job: "job = (index, info)"
          by (cases job)
        from pausing0 TimeoutFires True Cons job show ?thesis
          by (intro run_inv0.speaking0 [where info = info and rest = later])
            (simp_all add: speak0_def prims)
      qed
    qed
  qed (use assms(2) in simp_all)
qed

lemma run_inv0_exec:
  "run_inv0 js full t \<Longrightarrow> list_all is_env es \<Longrightarrow> run_inv0 js full (exec0 es t)"
  by (induction es arbitrary: t) (simp_all add: exec0_Nil exec0_Cons run_inv0_step)

lemma run_inv0_play:
  assumes "at_rest s"
  shows "run_inv0 (jobs0 (verses s))
           (trace s @ SetIsPlaying True # run_trace0 (timerCount s) (jobs0 (verses s)))
           (step0 ClickPlay s)"
proof (cases "jobs0 (verses s)")
  case Nil
  then show ?thesis
    using assms by (intro run_inv0.resting0) (simp_all add: play0_def at_rest_def prims)
next
  case (Cons job later)
  obtain index info where job: "job = (index, info)"
    by (cases job)
  from Cons job assms show ?thesis
    by (intro run_inv0.speaking0 [where info = info and rest = later])
      (simp_all add: play0_def speak0_def at_rest_def prims)
qed

subsection \<open>Playback in part_001 and part_002\<close>

lemma makeUtterances_not_Nil: "makeUtterances rv v \<noteq> Inr []"
  using js_split_not_Nil [of "CHR '',''"]
  by (auto simp add: makeUtterances_def Let_def split: option.splits)

lemma exec1_Nil: "exec1 rv [] s = s"
  by (simp add: exec1_def)

lemma exec1_Cons: "exec1 rv (e # es) s = exec1 rv es (step1 rv e s)"
  by (simp add: exec1_def)

lemma step1_env: "is_env e \<Longrightarrow> step1 rv e s = handle1 rv e s"
  by (cases rv; cases e) (simp_all add: step1_def)





lemma chain1_inv:
  assumes "speechQueue s = []" "timers s = []" "currentVerse s = - 1" "suffix jobs js"
    and "isPlaying s"
    and "trace s @ run_trace1 rv (timerCount s) jobs = full"
  shows "run_inv1 rv js full (chain1 rv jobs s)"
proof (cases jobs)
  case Nil
  with assms show ?thesis
    by (intro run_inv1.resting1) (simp_all add: prims)
next
  case (Cons job rest)
  obtain index v where job: "job = (index, v)"
    by (cases job)
  show ?thesis
  proof (cases "makeUtterances rv v")
    case (Inl e)
    with assms Cons job show ?thesis
      by (intro run_inv1.resting1) (simp_all add: prims)
  next
    case (Inr infos)
    then obtain info later where infos: "infos = info # later"
      using makeUtterances_not_Nil [of rv v] by (cases infos) auto
    from assms Cons job Inr infos show ?thesis
      by (intro run_inv1.speaking1 [where info = info and later = later and rest = rest
            and v = v and infos = infos])
        (simp_all add: prims)
  qed
qed

lemma run_inv1_step:
  assumes "run_inv1 rv js full t" and "is_env e"
  shows "run_inv1 rv js full (step1 rv e t)"
  using assms(1)
proof cases
  case resting1
  then have "step1 rv e t = t"
    using assms(2) by (cases e) (simp_all add: step1_env)
  with assms(1) show ?thesis
    by simp
next
  case (speaking1 info later rest v infos)
  show ?thesis
  proof (cases e)
    case UtteranceEnds
    have "suffix later infos"
      using speaking1(6) by (rule suffix_ConsD)
    then show ?thesis
      using speaking1 UtteranceEnds
      by (intro run_inv1.pausing1 [where ident = "timerCount t" and later = later
            and rest = rest and v = v and infos = infos])
        (simp_all add: step1_env ended1_def prims)
  next
    case (TimeoutFires n)
    with speaking1 assms(1) show ?thesis
      by (simp add: step1_env)
  qed (use assms(2) in simp_all)
next
  case (pausing1 ident later rest v infos)
  show ?thesis
  proof (cases e)
    case UtteranceEnds
    with pausing1 assms(1) show ?thesis
      by (simp add: step1_env)
  next
    case (TimeoutFires n)
    show ?thesis
    proof (cases "n = ident")
      case False
      with pausing1 TimeoutFires assms(1) show ?thesis
        by (simp add: step1_env)
    next
      case True
      show ?thesis
      proof (cases later)
        case Nil
        have "suffix rest js"
          using pausing1(5) by (rule suffix_ConsD)
        then have "run_inv1 rv js full
            (chain1 rv rest (emit [SetCurrentVerse (- 1)] ((fire ident t)\<lparr>currentVerse := - 1\<rparr>)))"
          using pausing1 Nil by (intro chain1_inv) (simp_all add: prims)
        then show ?thesis
          using pausing1 TimeoutFires True Nil by (simp add: step1_env)
      next
        case (Cons info further)
        from pausing1 TimeoutFires True Cons show ?thesis
          by (intro run_inv1.speaking1 [where info = info and later = further and rest = rest
                and v = v and infos = infos])
            (simp_all add: step1_env prims)
      qed
    qed
  qed (use assms(2) in simp_all)
qed

lemma run_inv1_exec:
  "run_inv1 rv js full t \<Longrightarrow> list_all is_env es \<Longrightarrow> run_inv1 rv js full (exec1 rv es t)"
  by (induction es arbitrary: t) (simp_all add: exec1_Nil exec1_Cons run_inv1_step)

lemma run_inv1_play:
  assumes "at_rest s" and "\<not> disabled rv s ClickPlay"
  shows "run_inv1 rv (jobs1 (verses s))
           (trace s @ SetIsPlaying True # run_trace1 rv (timerCount s) (jobs1 (verses s)))
           (step1 rv ClickPlay s)"
proof -
  have "run_inv1 rv (jobs1 (verses s))
           (trace s @ SetIsPlaying True # run_trace1 rv (timerCount s) (jobs1 (verses s)))
           (chain1 rv (jobs1 (verses s)) (emit [SetIsPlaying True] (s\<lparr>isPlaying := True\<rparr>)))"
    using assms(1) by (intro chain1_inv) (simp_all add: at_rest_def prims)
  then show ?thesis
    using assms(2) by (simp add: step1_def play1_def)
qed

lemma ui_inv_dispatch: "ui_inv t \<Longrightarrow> ui_inv (dispatch a t)"
  by (erule ui_inv.cases) (auto simp add: dispatch_def intro: ui_inv.intros)

lemma ui_inv_title: "ui_inv t \<Longrightarrow> ui_inv (emit es (t\<lparr>title := x\<rparr>))"
  by (erule ui_inv.cases) (auto simp add: prims intro: ui_inv.intros)

lemma ui_inv_chain1:
  assumes "speechQueue s = []" "timers s = []" "isPlaying s"
  shows "ui_inv (chain1 rv jobs s)"
proof (cases jobs)
  case Nil
  with assms show ?thesis
    by (intro ui_inv.ui_resting) (simp_all add: prims)
next
  case (Cons job rest)
  obtain index v where job: "job = (index, v)"
    by (cases job)
  show ?thesis
  proof (cases "makeUtterances rv v")
    case (Inl e)
    with assms Cons job show ?thesis
      by (intro ui_inv.ui_resting) (simp_all add: prims)
  next
    case (Inr infos)
    then obtain info later where infos: "infos = info # later"
      using makeUtterances_not_Nil [of rv v] by (cases infos) auto
    from assms Cons job Inr infos show ?thesis
      by (intro ui_inv.ui_speaking [where entry = "(info, (later, Next rest))"])
        (simp_all add: prims)
  qed
qed

lemma ui_inv_segments1:
  assumes "speechQueue s = []" "timers s = []" "isPlaying s"
  shows "ui_inv (segments1 rv infos a s)"
proof (cases infos)
  case (Cons info later)
  with assms show ?thesis
    by (intro ui_inv.ui_speaking [where entry = "(info, (later, a))"]) (simp_all add: prims)
next
  case Nil
  show ?thesis
  proof (cases a)
    case (Next jobs)
    have "ui_inv (chain1 rv jobs (emit [SetCurrentVerse (- 1)] (s\<lparr>currentVerse := - 1\<rparr>)))"
      using assms by (intro ui_inv_chain1) (simp_all add: prims)
    with Nil Next show ?thesis
      by simp
  next
    case Only
    with Nil assms show ?thesis
      by (intro ui_inv.ui_resting) (simp_all add: prims)
  next
    case OnlyThen
    with Nil assms show ?thesis
      by (intro ui_inv.ui_resting) (simp_all add: prims)
  qed
qed

lemma ui_inv_test1:
  assumes "speechQueue s = []" "timers s = []"
  shows "ui_inv (test1 rv index s)"
proof (cases "element_at (verses s) index")
  case None
  with assms show ?thesis
    by (intro ui_inv.ui_resting) (simp_all add: test1_def prims)
next
  case (Some v)
  show ?thesis
  proof (cases "makeUtterances rv v")
    case (Inl e)
    with Some assms show ?thesis
      by (intro ui_inv.ui_resting) (simp_all add: test1_def prims)
  next
    case (Inr infos)
    let ?s = "emit [SetCurrentVerse index]
        (emit [SetIsPlaying True] (s\<lparr>isPlaying := True\<rparr>)\<lparr>currentVerse := index\<rparr>)"
    have "ui_inv (segments1 rv infos (case rv of Part1 \<Rightarrow> Only | Part2 \<Rightarrow> OnlyThen) ?s)"
      using assms by (intro ui_inv_segments1) (simp_all add: prims)
    with Some Inr show ?thesis
      by (simp add: test1_def prims)
  qed
qed

lemma ui_inv_stop1: "ui_inv t \<Longrightarrow> ui_inv (stop1 t)"
  by (erule ui_inv.cases; intro ui_inv.ui_resting) (simp_all add: stop1_def prims)

lemma ui_inv_step:
  assumes "ui_inv t"
  shows "ui_inv (step1 Part2 e t)"
proof (cases "disabled Part2 t e")
  case True
  with assms show ?thesis
    by (simp add: step1_def)
next
  case False
  then have step: "step1 Part2 e t = handle1 Part2 e t"
    by (simp add: step1_def)
  show ?thesis
  proof (cases e)
    case ClickPlay
    with False have "\<not> isPlaying t"
      by simp
    with assms have "speechQueue t = []" "timers t = []"
      by (auto elim: ui_inv.cases)
    then have "ui_inv (chain1 Part2 (jobs1 (verses t)) (emit [SetIsPlaying True] (t\<lparr>isPlaying := True\<rparr>)))"
      by (intro ui_inv_chain1) (simp_all add: prims)
    with ClickPlay step show ?thesis
      by (simp add: play1_def)
  next
    case ClickStop
    with step assms show ?thesis
      by (simp add: ui_inv_stop1)
  next
    case (ClickTest index)
    with False have "\<not> isPlaying t"
      by simp
    with assms have "speechQueue t = []" "timers t = []"
      by (auto elim: ui_inv.cases)
    with ClickTest step show ?thesis
      by (simp add: ui_inv_test1)
  next
    case UtteranceEnds
    from assms show ?thesis
    proof cases
      case ui_resting
      with UtteranceEnds step assms show ?thesis
        by simp
    next
      case (ui_speaking entry)
      obtain info k where "entry = (info, k)"
        by (cases entry)
      with ui_speaking UtteranceEnds step show ?thesis
        by (intro ui_inv.ui_pausing [where ident = "timerCount t" and k = k])
          (simp_all add: ended1_def prims)
    next
      case (ui_pausing ident k)
      with UtteranceEnds step assms show ?thesis
        by simp
    qed
  next
    case (TimeoutFires n)
    from assms show ?thesis
    proof cases
      case ui_resting
      with TimeoutFires step assms show ?thesis
        by simp
    next
      case (ui_speaking entry)
      with TimeoutFires step assms show ?thesis
        by simp
    next
      case (ui_pausing ident k)
      show ?thesis
      proof (cases "n = ident")
        case False
        with ui_pausing TimeoutFires step assms show ?thesis
          by simp
      next
        case True
        obtain infos a where k: "k = (infos, a)"
          by (cases k)
        have "ui_inv (segments1 Part2 infos a (fire ident t))"
          using ui_pausing by (intro ui_inv_segments1) (simp_all add: prims)
        with ui_pausing TimeoutFires step True k show ?thesis
          by simp
      qed
    qed
  qed (use assms step in \<open>simp_all add: ui_inv_dispatch ui_inv_title\<close>)
qed

lemma ui_inv_exec: "ui_inv t \<Longrightarrow> ui_inv (exec1 Part2 es t)"
  by (induction es arbitrary: t) (simp_all add: exec1_Nil exec1_Cons ui_inv_step)

lemma ui_inv_pending: "ui_inv t \<Longrightarrow> length (speechQueue t) + length (timers t) \<le> 1"
  by (erule ui_inv.cases) simp_all

subsection \<open>Facts shared by the playback theorems\<close>

lemma env_fixed0:
  "speechQueue t = [] \<Longrightarrow> timers t = [] \<Longrightarrow> list_all is_env fs \<Longrightarrow> exec0 fs t = t"
proof (induction fs)
  case Nil
  show ?case by (simp add: exec0_Nil)
next
  case (Cons e fs)
  then have "step0 e t = t"
    by (cases e) simp_all
  with Cons show ?case
    by (simp add: exec0_Cons)
qed

lemma env_fixed1:
  "speechQueue t = [] \<Longrightarrow> timers t = [] \<Longrightarrow> list_all is_env fs \<Longrightarrow> exec1 rv fs t = t"
proof (induction fs)
  case Nil
  show ?case by (simp add: exec1_Nil)
next
  case (Cons e fs)
  then have "step1 rv e t = t"
    by (cases e) (simp_all add: step1_env)
  with Cons show ?case
    by (simp add: exec1_Cons)
qed





lemma length_jobs0: "length (jobs0 vs) = length vs"
  by (simp add: jobs0_def)

lemma length_jobs1: "length (jobs1 vs) = length vs"
  by (simp add: jobs1_def)

lemma suffix_Cons_position:
  assumes "suffix (x # rest) js"
  shows "\<exists>i<length js. js ! i = x \<and> rest = drop (Suc i) js"
proof -
  from assms obtain before where "js = before @ x # rest"
    by (auto simp add: suffix_def)
  then have "length before < length js \<and> js ! length before = x
      \<and> rest = drop (Suc (length before)) js"
    by simp
  then show ?thesis
    by blast
qed

lemma jobs0_position:
  assumes "suffix ((c, info) # rest) (jobs0 vs)"
  shows "\<exists>i<length vs. c = int i \<and> info = makeUtterance (vs ! i)
      \<and> rest = drop (Suc i) (jobs0 vs)"
proof -
  from suffix_Cons_position [OF assms]
  obtain i where "i < length (jobs0 vs)" "jobs0 vs ! i = (c, info)"
    "rest = drop (Suc i) (jobs0 vs)"
    by blast
  moreover from this have "jobs0 vs ! i = (int i, makeUtterance (vs ! i))"
    by (simp add: jobs0_def)
  ultimately show ?thesis
    by (auto simp add: length_jobs0)
qed

lemma jobs1_position:
  assumes "suffix ((c, v) # rest) (jobs1 vs)"
  shows "\<exists>i<length vs. c = int i \<and> v = vs ! i \<and> rest = drop (Suc i) (jobs1 vs)"
proof -
  from suffix_Cons_position [OF assms]
  obtain i where "i < length (jobs1 vs)" "jobs1 vs ! i = (c, v)"
    "rest = drop (Suc i) (jobs1 vs)"
    by blast
  moreover from this have "jobs1 vs ! i = (int i, vs ! i)"
    by (simp add: jobs1_def)
  ultimately show ?thesis
    by (auto simp add: length_jobs1)
qed



subsection \<open>Sequencing\<close>


lemmas page_defs = page0_def page1_def initial_def verseA_def verseB_def uttA_def uttB_def


subsection \<open>The highlighted verse\<close>

text \<open>
  C7 as stated: in a run, no verse is highlighted while no utterance is being spoken,
  the pauses included. In \<^verbatim>\<open>part_002\<close> (and \<^verbatim>\<open>part_001\<close>) it does not hold: after the
  utterance of verse A has ended, in its pause, verse 0 is still highlighted.
\<close>

theorem highlight_stays_in_pause:
  "speechQueue (exec1 Part2 [ClickPlay, UtteranceEnds] page1) = []
   \<and> map fst (timers (exec1 Part2 [ClickPlay, UtteranceEnds] page1)) = [0]
   \<and> currentVerse (exec1 Part2 [ClickPlay, UtteranceEnds] page1) = 0
   \<and> currentVerse (exec1 Part2 [ClickPlay, UtteranceEnds] page1) \<noteq> - 1
   \<and> speechQueue (exec1 Part1 [ClickPlay, UtteranceEnds] page1) = []
   \<and> currentVerse (exec1 Part1 [ClickPlay, UtteranceEnds] page1) = 0"
  by (simp add: exec1_def step1_def play1_def jobs1_def makeUtterances_def spoken_def
      ended1_def prims page_defs upt_rec)

text \<open>
  C7, amended. In a run of \<^verbatim>\<open>src/index.tsx\<close>, whatever utterance-end and timeout events
  have arrived: either no utterance is with the engine and no verse is highlighted (so in
  every pause), or the engine has the utterance of one verse \<open>i\<close>, with the jobs after \<open>i\<close>
  waiting, and \<open>i\<close> is the highlighted verse. In a run of \<^verbatim>\<open>part_001\<close> or \<^verbatim>\<open>part_002\<close>:
  either nothing of the run is pending and no verse is highlighted, or the engine has a
  segment of one verse \<open>i\<close>, or a timeout set after a segment of one verse \<open>i\<close> is pending; in
  both cases the later segments of \<open>i\<close> and the verses after \<open>i\<close> wait, and \<open>i\<close> is the
  highlighted verse. So the highlight stays on the verse through the pauses between its
  segments and the pause after its last one, and is on no other verse.
\<close>

theorem highlight_follows_the_run:
  assumes "at_rest s" and "at_rest u" and "\<not> disabled rv u ClickPlay" and "list_all is_env es"
  shows "((speechQueue (exec0 es (step0 ClickPlay s)) = []
           \<and> currentVerse (exec0 es (step0 ClickPlay s)) = - 1)
         \<or> (\<exists>i<length (verses s).
              currentVerse (exec0 es (step0 ClickPlay s)) = int i
              \<and> speechQueue (exec0 es (step0 ClickPlay s)) =
                  [(makeUtterance (verses s ! i), Chain (drop (Suc i) (jobs0 (verses s))))]
              \<and> timers (exec0 es (step0 ClickPlay s)) = []))
     \<and> ((speechQueue (exec1 rv es (step1 rv ClickPlay u)) = []
           \<and> timers (exec1 rv es (step1 rv ClickPlay u)) = []
           \<and> currentVerse (exec1 rv es (step1 rv ClickPlay u)) = - 1)
         \<or> (\<exists>i<length (verses u). \<exists>infos info later.
              currentVerse (exec1 rv es (step1 rv ClickPlay u)) = int i
              \<and> makeUtterances rv (verses u ! i) = Inr infos
              \<and> suffix (info # later) infos
              \<and> speechQueue (exec1 rv es (step1 rv ClickPlay u)) =
                  [(info, (later, Next (drop (Suc i) (jobs1 (verses u)))))]
              \<and> timers (exec1 rv es (step1 rv ClickPlay u)) = [])
         \<or> (\<exists>i<length (verses u). \<exists>infos later ident.
              currentVerse (exec1 rv es (step1 rv ClickPlay u)) = int i
              \<and> makeUtterances rv (verses u ! i) = Inr infos
              \<and> suffix later infos
              \<and> speechQueue (exec1 rv es (step1 rv ClickPlay u)) = []
              \<and> timers (exec1 rv es (step1 rv ClickPlay u)) =
                  [(ident, (later, Next (drop (Suc i) (jobs1 (verses u)))))]
              \<and> currentTimeout (exec1 rv es (step1 rv ClickPlay u)) = int ident))"
proof -
  let ?t = "exec0 es (step0 ClickPlay s)"
  let ?w = "exec1 rv es (step1 rv ClickPlay u)"
  have inv0: "run_inv0 (jobs0 (verses s))
      (trace s @ SetIsPlaying True # run_trace0 (timerCount s) (jobs0 (verses s))) ?t"
    using assms(1,4) by (intro run_inv0_exec run_inv0_play)
  have inv1: "run_inv1 rv (jobs1 (verses u))
      (trace u @ SetIsPlaying True # run_trace1 rv (timerCount u) (jobs1 (verses u))) ?w"
    using assms(2,3,4) by (intro run_inv1_exec run_inv1_play)
  from inv0 have first: "(speechQueue ?t = [] \<and> currentVerse ?t = - 1)
         \<or> (\<exists>i<length (verses s). currentVerse ?t = int i
              \<and> speechQueue ?t =
                  [(makeUtterance (verses s ! i), Chain (drop (Suc i) (jobs0 (verses s))))]
              \<and> timers ?t = [])"
  proof cases
    case (speaking0 info rest)
    from jobs0_position [OF speaking0(4)]
    obtain i where "i < length (verses s)" "currentVerse ?t = int i"
      "info = makeUtterance (verses s ! i)" "rest = drop (Suc i) (jobs0 (verses s))"
      by blast
    with speaking0 show ?thesis
      by auto
  qed simp_all
  from inv1 have second: "(speechQueue ?w = [] \<and> timers ?w = [] \<and> currentVerse ?w = - 1)
         \<or> (\<exists>i<length (verses u). \<exists>infos info later.
              currentVerse ?w = int i
              \<and> makeUtterances rv (verses u ! i) = Inr infos
              \<and> suffix (info # later) infos
              \<and> speechQueue ?w = [(info, (later, Next (drop (Suc i) (jobs1 (verses u)))))]
              \<and> timers ?w = [])
         \<or> (\<exists>i<length (verses u). \<exists>infos later ident.
              currentVerse ?w = int i
              \<and> makeUtterances rv (verses u ! i) = Inr infos
              \<and> suffix later infos
              \<and> speechQueue ?w = []
              \<and> timers ?w = [(ident, (later, Next (drop (Suc i) (jobs1 (verses u)))))]
              \<and> currentTimeout ?w = int ident)"
  proof cases
    case resting1
    then show ?thesis
      by simp
  next
    case (speaking1 info later rest v infos)
    from jobs1_position [OF speaking1(4)]
    obtain i where "i < length (verses u)" "currentVerse ?w = int i" "v = verses u ! i"
      "rest = drop (Suc i) (jobs1 (verses u))"
      by blast
    with speaking1 show ?thesis
      by blast
  next
    case (pausing1 ident later rest v infos)
    from jobs1_position [OF pausing1(5)]
    obtain i where "i < length (verses u)" "currentVerse ?w = int i" "v = verses u ! i"
      "rest = drop (Suc i) (jobs1 (verses u))"
      by blast
    with pausing1 show ?thesis
      by blast
  qed
  from first second show ?thesis
    by (rule conjI)
qed

theorem highlight_follows_the_run_witness:
  "at_rest page0 \<and> at_rest page1 \<and> \<not> disabled Part1 page1 ClickPlay
   \<and> list_all is_env [UtteranceEnds, TimeoutFires 0, UtteranceEnds]
   \<and> speechQueue (exec0 [UtteranceEnds, TimeoutFires 0, UtteranceEnds]
        (step0 ClickPlay page0)) = []
   \<and> currentVerse (exec0 [UtteranceEnds, TimeoutFires 0, UtteranceEnds]
        (step0 ClickPlay page0)) = - 1
   \<and> speechQueue (exec1 Part1 [UtteranceEnds, TimeoutFires 0, UtteranceEnds]
        (step1 Part1 ClickPlay page1)) = []
   \<and> timers (exec1 Part1 [UtteranceEnds, TimeoutFires 0, UtteranceEnds]
        (step1 Part1 ClickPlay page1)) = [(1, ([], Next []))]
   \<and> currentVerse (exec1 Part1 [UtteranceEnds, TimeoutFires 0, UtteranceEnds]
        (step1 Part1 ClickPlay page1)) = 1"
proof -
  let ?es = "[UtteranceEnds, TimeoutFires 0, UtteranceEnds]"
  let ?t = "exec0 ?es (step0 ClickPlay page0)"
  let ?w = "exec1 Part1 ?es (step1 Part1 ClickPlay page1)"
  have rest0: "at_rest page0" and rest1: "at_rest page1"
    by (simp_all add: at_rest_def page_defs)
  have enabled: "\<not> disabled Part1 page1 ClickPlay"
    by simp
  have env: "list_all is_env ?es"
    by simp
  have pause0: "speechQueue ?t = []"
    by (simp add: exec0_def play0_def jobs0_def speak0_def ended0_def Let_def prims
        page_defs upt_rec)
  have pause1: "speechQueue ?w = []" and pending1: "timers ?w = [(1, ([], Next []))]"
    by (simp_all add: exec1_def step1_def play1_def jobs1_def makeUtterances_def spoken_def
        ended1_def prims page_defs upt_rec)
  have two: "length (verses page1) = 2" and jobs: "length (jobs1 (verses page1)) = 2"
    by (simp_all add: page_defs jobs1_def)
  note run = highlight_follows_the_run [OF rest0 rest1 enabled env]
  from run pause0 have clear0: "currentVerse ?t = - 1"
    by auto
  from run pause1 pending1
  obtain i where i: "i < length (verses page1)" "currentVerse ?w = int i"
    "drop (Suc i) (jobs1 (verses page1)) = []"
    by auto
  from i(3) jobs have "1 \<le> i"
    by simp
  with i(1) two have "i = 1"
    by simp
  with i(2) have "currentVerse ?w = 1"
    by simp
  with rest0 rest1 enabled env pause0 clear0 pause1 pending1 show ?thesis
    by simp
qed

subsection \<open>A second play\<close>

text \<open>
  C6 as stated: a second \<^verbatim>\<open>play()\<close> during a run starts no overlapping run. In
  \<^verbatim>\<open>src/index.tsx\<close> and in \<^verbatim>\<open>part_001\<close> it does: after two clicks on Play two utterances,
  one of each run, are with the engine.
\<close>

theorem second_play_overlaps:
  "map (\<lambda>entry. utterance (fst entry)) (speechQueue (exec0 [ClickPlay, ClickPlay] page0))
     = [uttA, uttA]
   \<and> length (speechQueue (exec0 [ClickPlay, ClickPlay] page0)) = 2
   \<and> length (speechQueue (exec1 Part1 [ClickPlay, ClickPlay] page1)) = 2"
  by (simp add: exec0_def play0_def jobs0_def speak0_def makeUtterance_def
      exec1_def step1_def play1_def jobs1_def makeUtterances_def spoken_def
      prims page_defs upt_rec)

text \<open>
  C6, amended. In \<^verbatim>\<open>part_002\<close> the Play and Test buttons are disabled while the flag is
  up: a click on them in that state changes nothing. Starting from any state with nothing
  pending, whatever is clicked or edited and whatever the browser reports, at most one
  utterance or one timeout is pending at any time, so two runs never drive speech
  together. (\<^verbatim>\<open>src/index.tsx\<close> and \<^verbatim>\<open>part_001\<close> have no such guard.)
\<close>

theorem part2_play_is_guarded:
  assumes "speechQueue s0 = []" and "timers s0 = []"
  shows "(isPlaying s \<longrightarrow>
            step1 Part2 ClickPlay s = s \<and> step1 Part2 (ClickTest index) s = s)
     \<and> length (speechQueue (exec1 Part2 es s0)) + length (timers (exec1 Part2 es s0)) \<le> 1"
proof -
  have "ui_inv s0"
    using assms by (rule ui_inv.ui_resting)
  then have "ui_inv (exec1 Part2 es s0)"
    by (rule ui_inv_exec)
  then have "length (speechQueue (exec1 Part2 es s0)) + length (timers (exec1 Part2 es s0)) \<le> 1"
    by (rule ui_inv_pending)
  then show ?thesis
    by (simp add: step1_def)
qed

theorem part2_play_is_guarded_witness:
  "speechQueue page1 = [] \<and> timers page1 = []
   \<and> isPlaying (step1 Part2 ClickPlay page1)
   \<and> step1 Part2 ClickPlay (step1 Part2 ClickPlay page1) = step1 Part2 ClickPlay page1
   \<and> step1 Part2 (ClickTest 1) (step1 Part2 ClickPlay page1) = step1 Part2 ClickPlay page1
   \<and> length (speechQueue (exec1 Part2 [ClickPlay, ClickPlay, ClickTest 1] page1))
       + length (timers (exec1 Part2 [ClickPlay, ClickPlay, ClickTest 1] page1)) \<le> 1"
proof -
  have quiet: "speechQueue page1 = []" "timers page1 = []"
    by (simp_all add: page_defs)
  have playing: "isPlaying (step1 Part2 ClickPlay page1)"
    by (simp add: step1_def play1_def jobs1_def makeUtterances_def spoken_def prims
        page_defs upt_rec)
  from part2_play_is_guarded [OF quiet, of "step1 Part2 ClickPlay page1" 1
      "[ClickPlay, ClickPlay, ClickTest 1]"] quiet playing
  show ?thesis
    by simp
qed

subsection \<open>Stop\<close>

lemma stop0_in_pause:
  assumes "run_inv0 js full t" and "speechQueue t = []"
  shows "idle (step0 ClickStop t)"
  using assms(1)
proof cases
  case (speaking0 info rest)
  with assms(2) show ?thesis
    by simp
qed (simp_all add: idle_def at_rest_def prims)

lemma stop0_while_speaking:
  assumes "run_inv0 js full t" and "speechQueue t \<noteq> []"
  shows "speechQueue (step0 ClickStop t) = speechQueue t
     \<and> currentVerse (step0 ClickStop t) = currentVerse t
     \<and> idle (exec0 [UtteranceEnds, TimeoutFires (timerCount t)] (step0 ClickStop t))
     \<and> (\<forall>x. SpeechSpeak x \<notin> set (drop (length (trace t))
           (trace (exec0 [UtteranceEnds, TimeoutFires (timerCount t)] (step0 ClickStop t)))))"
  using assms(1)
proof cases
  case (speaking0 info rest)
  show ?thesis
  proof (cases rest)
    case Nil
    with speaking0 show ?thesis
      by (simp add: exec0_def ended0_def Let_def idle_def at_rest_def prims)
  next
    case (Cons job later)
    obtain index info' where "job = (index, info')"
      by (cases job)
    with speaking0 Cons show ?thesis
      by (simp add: exec0_def ended0_def speak0_def Let_def idle_def at_rest_def prims)
  qed
qed (use assms(2) in simp_all)

lemma stop1_idle:
  assumes "run_inv1 rv js full w"
  shows "idle (step1 rv ClickStop w)"
proof (cases "disabled rv w ClickStop")
  case False
  then have "step1 rv ClickStop w = stop1 w"
    by (simp add: step1_def)
  moreover have "idle (stop1 w)"
    using assms by cases (simp_all add: stop1_def idle_def at_rest_def prims)
  ultimately show ?thesis
    by simp
next
  case True
  then have down: "\<not> isPlaying w"
    by (cases rv) simp_all
  from assms have "idle w"
    by cases (use down in \<open>simp_all add: idle_def at_rest_def\<close>)
  with True show ?thesis
    by (simp add: step1_def)
qed

text \<open>
  C4 as stated: \<^verbatim>\<open>stop()\<close> during a run cancels the pending speech and leaves the
  playback state idle at once. The Stop button of \<^verbatim>\<open>src/index.tsx\<close> does not: pressed while
  verse A is being spoken, the utterance stays with the engine and verse 0 stays
  highlighted.
\<close>

theorem stop_leaves_speech_running:
  "map (\<lambda>entry. utterance (fst entry)) (speechQueue (exec0 [ClickPlay, ClickStop] page0))
     = [uttA]
   \<and> currentVerse (exec0 [ClickPlay, ClickStop] page0) = 0
   \<and> \<not> idle (exec0 [ClickPlay, ClickStop] page0)"
  by (simp add: exec0_def play0_def jobs0_def speak0_def makeUtterance_def idle_def
      at_rest_def prims page_defs upt_rec)

text \<open>
  C4, amended. Let a run be under way, with any utterance-end and timeout events behind
  it. In \<^verbatim>\<open>src/index.tsx\<close> Stop clears the flag and the pending timeout at once. Pressed
  while no utterance is being spoken (in a pause) it leaves the state idle, and no event
  of the browser changes it any more: the next job never starts. Pressed while an
  utterance is being spoken it leaves the utterance with the engine and the verse
  highlighted; once that utterance has ended and its timeout has fired the state is idle,
  and nothing was handed to the engine in between. In \<^verbatim>\<open>part_001\<close> and \<^verbatim>\<open>part_002\<close> Stop
  leaves the state idle at once, with the engine's queue emptied and the timeout cleared,
  and no event of the browser changes it any more.
\<close>

theorem stop_ends_the_run:
  assumes "at_rest s" and "at_rest u" and "\<not> disabled rv u ClickPlay"
    and "list_all is_env es" and "list_all is_env fs"
  shows "\<not> isPlaying (step0 ClickStop (exec0 es (step0 ClickPlay s)))
     \<and> timers (step0 ClickStop (exec0 es (step0 ClickPlay s))) = []
     \<and> (speechQueue (exec0 es (step0 ClickPlay s)) = [] \<longrightarrow>
          idle (step0 ClickStop (exec0 es (step0 ClickPlay s)))
          \<and> exec0 fs (step0 ClickStop (exec0 es (step0 ClickPlay s))) =
              step0 ClickStop (exec0 es (step0 ClickPlay s)))
     \<and> (speechQueue (exec0 es (step0 ClickPlay s)) \<noteq> [] \<longrightarrow>
          speechQueue (step0 ClickStop (exec0 es (step0 ClickPlay s))) =
            speechQueue (exec0 es (step0 ClickPlay s))
          \<and> currentVerse (step0 ClickStop (exec0 es (step0 ClickPlay s))) =
            currentVerse (exec0 es (step0 ClickPlay s))
          \<and> idle (exec0 [UtteranceEnds, TimeoutFires (timerCount (exec0 es (step0 ClickPlay s)))]
                (step0 ClickStop (exec0 es (step0 ClickPlay s))))
          \<and> (\<forall>x. SpeechSpeak x \<notin> set (drop (length (trace (exec0 es (step0 ClickPlay s))))
                (trace (exec0 [UtteranceEnds,
                    TimeoutFires (timerCount (exec0 es (step0 ClickPlay s)))]
                  (step0 ClickStop (exec0 es (step0 ClickPlay s))))))))
     \<and> idle (step1 rv ClickStop (exec1 rv es (step1 rv ClickPlay u)))
     \<and> exec1 rv fs (step1 rv ClickStop (exec1 rv es (step1 rv ClickPlay u))) =
         step1 rv ClickStop (exec1 rv es (step1 rv ClickPlay u))"
proof -
  let ?t = "exec0 es (step0 ClickPlay s)"
  let ?w = "exec1 rv es (step1 rv ClickPlay u)"
  have inv0: "run_inv0 (jobs0 (verses s))
      (trace s @ SetIsPlaying True # run_trace0 (timerCount s) (jobs0 (verses s))) ?t"
    using assms(1,4) by (intro run_inv0_exec run_inv0_play)
  have inv1: "run_inv1 rv (jobs1 (verses u))
      (trace u @ SetIsPlaying True # run_trace1 rv (timerCount u) (jobs1 (verses u))) ?w"
    using assms(2,3,4) by (intro run_inv1_exec run_inv1_play)
  from inv0 have flag: "\<not> isPlaying (step0 ClickStop ?t) \<and> timers (step0 ClickStop ?t) = []"
    by cases (simp_all add: prims)
  have pause: "idle (step0 ClickStop ?t) \<and> exec0 fs (step0 ClickStop ?t) = step0 ClickStop ?t"
    if "speechQueue ?t = []"
  proof -
    from inv0 that have now: "idle (step0 ClickStop ?t)"
      by (rule stop0_in_pause)
    then have "exec0 fs (step0 ClickStop ?t) = step0 ClickStop ?t"
      using assms(5) by (intro env_fixed0) (simp_all add: idle_def at_rest_def)
    with now show ?thesis
      by simp
  qed
  note speaking = stop0_while_speaking [OF inv0]
  from inv1 have now1: "idle (step1 rv ClickStop ?w)"
    by (rule stop1_idle)
  then have fixed1: "exec1 rv fs (step1 rv ClickStop ?w) = step1 rv ClickStop ?w"
    using assms(5) by (intro env_fixed1) (simp_all add: idle_def at_rest_def)
  from flag pause speaking now1 fixed1 show ?thesis
    by blast
qed

theorem stop_ends_the_run_witness:
  "at_rest page0 \<and> at_rest page1 \<and> \<not> disabled Part2 page1 ClickPlay
   \<and> list_all is_env [UtteranceEnds] \<and> list_all is_env [TimeoutFires 0, UtteranceEnds]
   \<and> speechQueue (exec0 [UtteranceEnds] (step0 ClickPlay page0)) = []
   \<and> idle (step0 ClickStop (exec0 [UtteranceEnds] (step0 ClickPlay page0)))
   \<and> exec0 [TimeoutFires 0, UtteranceEnds]
        (step0 ClickStop (exec0 [UtteranceEnds] (step0 ClickPlay page0))) =
      step0 ClickStop (exec0 [UtteranceEnds] (step0 ClickPlay page0))
   \<and> speechQueue (exec0 [] (step0 ClickPlay page0)) \<noteq> []
   \<and> currentVerse (step0 ClickStop (exec0 [] (step0 ClickPlay page0))) =
      currentVerse (exec0 [] (step0 ClickPlay page0))
   \<and> idle (exec0 [UtteranceEnds, TimeoutFires (timerCount (exec0 [] (step0 ClickPlay page0)))]
        (step0 ClickStop (exec0 [] (step0 ClickPlay page0))))
   \<and> idle (step1 Part2 ClickStop (exec1 Part2 [UtteranceEnds] (step1 Part2 ClickPlay page1)))
   \<and> exec1 Part2 [TimeoutFires 0, UtteranceEnds]
        (step1 Part2 ClickStop (exec1 Part2 [UtteranceEnds] (step1 Part2 ClickPlay page1))) =
      step1 Part2 ClickStop (exec1 Part2 [UtteranceEnds] (step1 Part2 ClickPlay page1))"
proof -
  have rest0: "at_rest page0" and rest1: "at_rest page1"
    by (simp_all add: at_rest_def page_defs)
  have enabled: "\<not> disabled Part2 page1 ClickPlay"
    by (simp add: page_defs)
  have env: "list_all is_env [UtteranceEnds]"
    and env': "list_all is_env [TimeoutFires 0, UtteranceEnds]"
    and none: "list_all is_env []"
    by simp_all
  have pause: "speechQueue (exec0 [UtteranceEnds] (step0 ClickPlay page0)) = []"
    by (simp add: exec0_def play0_def jobs0_def speak0_def ended0_def Let_def prims
        page_defs upt_rec)
  have speaking: "speechQueue (exec0 [] (step0 ClickPlay page0)) \<noteq> []"
    by (simp add: exec0_def play0_def jobs0_def speak0_def prims page_defs upt_rec)
  note in_pause = stop_ends_the_run [OF rest0 rest1 enabled env env']
  note in_speech = stop_ends_the_run [OF rest0 rest1 enabled none env']
  from in_pause pause
  have "idle (step0 ClickStop (exec0 [UtteranceEnds] (step0 ClickPlay page0)))"
    and "exec0 [TimeoutFires 0, UtteranceEnds]
        (step0 ClickStop (exec0 [UtteranceEnds] (step0 ClickPlay page0))) =
      step0 ClickStop (exec0 [UtteranceEnds] (step0 ClickPlay page0))"
    and "idle (step1 Part2 ClickStop (exec1 Part2 [UtteranceEnds] (step1 Part2 ClickPlay page1)))"
    and "exec1 Part2 [TimeoutFires 0, UtteranceEnds]
        (step1 Part2 ClickStop (exec1 Part2 [UtteranceEnds] (step1 Part2 ClickPlay page1))) =
      step1 Part2 ClickStop (exec1 Part2 [UtteranceEnds] (step1 Part2 ClickPlay page1))"
    by blast+
  moreover from in_speech speaking
  have "currentVerse (step0 ClickStop (exec0 [] (step0 ClickPlay page0))) =
      currentVerse (exec0 [] (step0 ClickPlay page0))"
    and "idle (exec0 [UtteranceEnds, TimeoutFires (timerCount (exec0 [] (step0 ClickPlay page0)))]
        (step0 ClickStop (exec0 [] (step0 ClickPlay page0))))"
    by blast+
  ultimately show ?thesis
    using rest0 rest1 enabled env env' pause speaking by blast
qed

end
